theory Spec2Isabelle
  imports Main "HOL-Library.Word"
begin

unbundle bit_operations_syntax

section \<open>Data model (rpi2.h)\<close>

type_synonym u16 = "16 word"
type_synonym u32 = "32 word"
type_synonym u64 = "64 word"

text \<open>The supported baud rates and the data-bit codes of the header.\<close>

abbreviation (input) BAUD_9600 :: u32 where "BAUD_9600 \<equiv> 9600"
abbreviation (input) BAUD_19200 :: u32 where "BAUD_19200 \<equiv> 19200"
abbreviation (input) BAUD_38400 :: u32 where "BAUD_38400 \<equiv> 38400"
abbreviation (input) BAUD_57600 :: u32 where "BAUD_57600 \<equiv> 57600"
abbreviation (input) BAUD_115200 :: u32 where "BAUD_115200 \<equiv> 115200"

abbreviation (input) DATA_BITS_7 :: u32 where "DATA_BITS_7 \<equiv> 0"
abbreviation (input) DATA_BITS_8 :: u32 where "DATA_BITS_8 \<equiv> 3"

text \<open>\<^verbatim>\<open>struct uart_config\<close> and \<^verbatim>\<open>struct uart_stats\<close>.\<close>

record uart_config =
  baudrate :: u32
  data_bits :: u32
  system_clock :: u32

record uart_stats =
  tx_bytes :: u64
  rx_bytes :: u64
  tx_errors :: u64
  rx_errors :: u64
  fifo_overruns :: u64

text \<open>The registers of \<^verbatim>\<open>struct uart_regs\<close> that the driver touches.\<close>

datatype reg = ENABLES | MU_IO | MU_IER | MU_IIR | MU_LCR | MU_MCR | MU_CNTL | MU_BAUD

text \<open>
  The error returns of the driver. The two failures of the baud computation both return
  \<^verbatim>\<open>-EINVAL\<close>; they differ in the message logged, which the constructor records.
\<close>

datatype errno = EINVAL | EFAULT

datatype baud_error = Invalid_baud_rate | Baud_calc_overflow

text \<open>
  The module's globals and the device behind the mapped registers.
  \<^item> \<open>config\<close>, \<open>stats\<close>: the two static structs.
  \<^item> \<open>writes\<close>: every \<^verbatim>\<open>writel\<close> to a register, oldest first.
  \<^item> \<open>rx_fifo\<close>: the bytes waiting in the receive FIFO; a read of \<^verbatim>\<open>MU_IO\<close> takes the
    first one. Bit 0 of \<^verbatim>\<open>MU_LSR\<close> (data available) is set exactly when it is not empty.
    The device is a simulated one: it reports these bytes and then no data, and no byte
    arrives while a handler runs.
  \<^item> \<open>lsr_env\<close>: every other bit of \<^verbatim>\<open>MU_LSR\<close>, as the hardware drives it at the n-th
    read of that register; \<open>lsr_reads\<close> counts the reads so far.
  \<^item> \<open>mu_stat\<close>: the value \<^verbatim>\<open>MU_STAT\<close> reads as.
  \<^item> \<open>slept_us\<close>: the least time spent in \<^verbatim>\<open>usleep_range\<close>, in microseconds.
\<close>

record uart_state =
  config :: uart_config
  stats :: uart_stats
  writes :: "(reg \<times> u32) list"
  rx_fifo :: "char list"
  lsr_env :: "nat \<Rightarrow> u32"
  lsr_reads :: nat
  mu_stat :: u32
  slept_us :: nat

text \<open>The initial values of the two globals.\<close>

definition config_init :: uart_config where
  "config_init = \<lparr>baudrate = BAUD_9600, data_bits = DATA_BITS_8, system_clock = 500000000\<rparr>"

definition stats_zero :: uart_stats where
  "stats_zero = \<lparr>tx_bytes = 0, rx_bytes = 0, tx_errors = 0, rx_errors = 0, fifo_overruns = 0\<rparr>"

section \<open>Register access and sleeping\<close>

text \<open>
  A register write is logged. A write to \<^verbatim>\<open>MU_IIR\<close> with bit 1 set is the command that
  clears the receive FIFO.
\<close>

definition writel :: "u32 \<Rightarrow> reg \<Rightarrow> uart_state \<Rightarrow> uart_state" where
  "writel v r s =
     (let s1 = s\<lparr>writes := writes s @ [(r, v)]\<rparr>
      in if r = MU_IIR \<and> v AND 0x02 \<noteq> 0 then s1\<lparr>rx_fifo := []\<rparr> else s1)"

definition usleep_range :: "nat \<Rightarrow> nat \<Rightarrow> uart_state \<Rightarrow> uart_state" where
  "usleep_range lo hi s = s\<lparr>slept_us := slept_us s + lo\<rparr>"

text \<open>What a read of the line status register returns, and the read itself.\<close>

definition lsr_value :: "uart_state \<Rightarrow> u32" where
  "lsr_value s =
     (lsr_env s (lsr_reads s) AND NOT 1) OR (if rx_fifo s = [] then 0 else 1)"

definition readl_LSR :: "uart_state \<Rightarrow> u32 \<times> uart_state" where
  "readl_LSR s = (lsr_value s, s\<lparr>lsr_reads := Suc (lsr_reads s)\<rparr>)"

text \<open>A read of the data register takes the oldest byte of the FIFO (0 when it is empty).\<close>

definition readl_IO :: "uart_state \<Rightarrow> u32 \<times> uart_state" where
  "readl_IO s =
     (case rx_fifo s of
        [] \<Rightarrow> (0, s)
      | c # cs \<Rightarrow> (of_char c, s\<lparr>rx_fifo := cs\<rparr>))"

section \<open>Baud rate register\<close>

text \<open>
  \<^verbatim>\<open>calculate_baud_register\<close>: all arithmetic is on \<^verbatim>\<open>u32\<close>; the clock is read from the
  configuration.
\<close>

definition calculate_baud_register :: "uart_config \<Rightarrow> u32 \<Rightarrow> baud_error + u16" where
  "calculate_baud_register cfg b =
     (if b = 0 \<or> b > system_clock cfg div 8 then Inl Invalid_baud_rate
      else
        let denominator = 8 * b;
            res = system_clock cfg div denominator - 1
        in if res > 0xFFFF then Inl Baud_calc_overflow
           else Inr (ucast res))"

section \<open>Statistics counters\<close>

text \<open>The five \<^verbatim>\<open>stats.x++\<close> statements and the \<^verbatim>\<open>memset\<close> of the reset.\<close>

definition inc_tx_bytes :: "uart_state \<Rightarrow> uart_state" where
  "inc_tx_bytes s = s\<lparr>stats := (stats s)\<lparr>tx_bytes := tx_bytes (stats s) + 1\<rparr>\<rparr>"

definition inc_rx_bytes :: "uart_state \<Rightarrow> uart_state" where
  "inc_rx_bytes s = s\<lparr>stats := (stats s)\<lparr>rx_bytes := rx_bytes (stats s) + 1\<rparr>\<rparr>"

definition inc_tx_errors :: "uart_state \<Rightarrow> uart_state" where
  "inc_tx_errors s = s\<lparr>stats := (stats s)\<lparr>tx_errors := tx_errors (stats s) + 1\<rparr>\<rparr>"

definition inc_rx_errors :: "uart_state \<Rightarrow> uart_state" where
  "inc_rx_errors s = s\<lparr>stats := (stats s)\<lparr>rx_errors := rx_errors (stats s) + 1\<rparr>\<rparr>"

definition inc_fifo_overruns :: "uart_state \<Rightarrow> uart_state" where
  "inc_fifo_overruns s = s\<lparr>stats := (stats s)\<lparr>fifo_overruns := fifo_overruns (stats s) + 1\<rparr>\<rparr>"

definition reset_stats :: "uart_state \<Rightarrow> uart_state" where
  "reset_stats s = s\<lparr>stats := stats_zero\<rparr>"

section \<open>Transmit path\<close>

text \<open>
  The wait loop of \<^verbatim>\<open>uart_send_char\<close>:
  \<^verbatim>\<open>while (!(readl(&uart->MU_LSR) & (1 << 5)) && timeout-- > 0) usleep_range(1, 2);\<close>
  The status is read first; \<^verbatim>\<open>timeout\<close> is decremented only when bit 5 is clear, also on
  the test that ends the loop. The result is the value of \<^verbatim>\<open>timeout\<close> after the loop.
\<close>

function wait_tx_space :: "int \<Rightarrow> uart_state \<Rightarrow> int \<times> uart_state" where
  "wait_tx_space timeout s =
     (case readl_LSR s of (lsr, s1) \<Rightarrow>
        if lsr AND push_bit 5 1 = 0 then
          (if timeout > 0 then wait_tx_space (timeout - 1) (usleep_range 1 2 s1)
           else (timeout - 1, s1))
        else (timeout, s1))"
  by pat_completeness auto
termination
  by (relation "measure (\<lambda>(timeout, s). nat timeout)") auto

text \<open>
  \<^verbatim>\<open>uart_send_char\<close>. A line feed first sends a carriage return through the same
  function; then the wait, and either the error count or the write to \<^verbatim>\<open>MU_IO\<close>.
\<close>

function uart_send_char :: "char \<Rightarrow> uart_state \<Rightarrow> uart_state" where
  "uart_send_char c s =
     (let s0 = (if c = CHR 0x0A then uart_send_char (CHR 0x0D) s else s) in
      (case wait_tx_space 10000 s0 of (timeout, s1) \<Rightarrow>
         if timeout \<le> 0 then inc_tx_errors s1
         else inc_tx_bytes (writel (of_char c AND 0xFF) MU_IO s1)))"
  by pat_completeness auto
termination
  by (relation "measure (\<lambda>(c, s). if c = CHR 0x0A then 1 else 0)") auto

text \<open>
  \<^verbatim>\<open>uart_send_string\<close>, on the bytes of the buffer before its terminator: the loop ends
  at the first NUL byte. The transmit mutex is held around the loop; with one caller it
  has no effect on the state.
\<close>

fun uart_send_string :: "string \<Rightarrow> uart_state \<Rightarrow> uart_state" where
  "uart_send_string [] s = s"
| "uart_send_string (c # cs) s =
     (if c = CHR 0x00 then s
      else
        let s1 = (if c = CHR 0x0A then uart_send_char (CHR 0x0D) s else s)
        in uart_send_string cs (uart_send_char c s1))"

text \<open>The values written to the data register, oldest first: the bytes on the wire.\<close>

definition wire :: "uart_state \<Rightarrow> u32 list" where
  "wire s = map snd (filter (\<lambda>w. fst w = MU_IO) (writes s))"

section \<open>Receive path\<close>

definition uart_data_available :: "uart_state \<Rightarrow> u32 \<times> uart_state" where
  "uart_data_available s =
     (case readl_LSR s of (lsr, s1) \<Rightarrow> (lsr AND push_bit 0 1, s1))"

definition uart_check_rx_errors :: "uart_state \<Rightarrow> uart_state" where
  "uart_check_rx_errors s =
     (case readl_LSR s of (lsr, s1) \<Rightarrow>
        if lsr AND push_bit 1 1 \<noteq> 0 then inc_fifo_overruns s1 else s1)"

definition uart_receive_char :: "uart_state \<Rightarrow> char \<times> uart_state" where
  "uart_receive_char s =
     (case uart_data_available s of (a, s1) \<Rightarrow>
        if a = 0 then (CHR 0x00, s1)
        else
          (case readl_IO (inc_rx_bytes (uart_check_rx_errors s1)) of (v, s2) \<Rightarrow>
             (char_of (unat (v AND 0xFF)), s2)))"

text \<open>
  The first loop of \<^verbatim>\<open>uart_proc_read\<close>:
  \<^verbatim>\<open>while (!uart_data_available() && timeout-- > 0) usleep_range(1000, 1500);\<close>
\<close>

function rx_wait_first :: "int \<Rightarrow> uart_state \<Rightarrow> int \<times> uart_state" where
  "rx_wait_first timeout s =
     (case uart_data_available s of (a, s1) \<Rightarrow>
        if a = 0 then
          (if timeout > 0 then rx_wait_first (timeout - 1) (usleep_range 1000 1500 s1)
           else (timeout - 1, s1))
        else (timeout, s1))"
  by pat_completeness auto
termination
  by (relation "measure (\<lambda>(timeout, s). nat timeout)") auto

text \<open>
  The inner loop of \<^verbatim>\<open>uart_proc_read\<close>. \<open>kbuf\<close> holds the bytes stored so far, so the
  index \<^verbatim>\<open>i\<close> is its length; \<open>cnd\<close> is \<^verbatim>\<open>consecutive_no_data\<close>. The bound 511 is
  \<^verbatim>\<open>sizeof(kbuf) - 1\<close>.
\<close>

function rx_inner :: "nat \<Rightarrow> string \<Rightarrow> int \<Rightarrow> uart_state \<Rightarrow> string \<times> int \<times> uart_state" where
  "rx_inner count kbuf cnd s =
     (case uart_data_available s of (a, s1) \<Rightarrow>
        if a \<noteq> 0 \<and> length kbuf < 511 \<and> length kbuf < count then
          (case uart_receive_char s1 of (c, s2) \<Rightarrow>
             if c \<noteq> CHR 0x00 then rx_inner count (kbuf @ [c]) 0 s2
             else rx_inner count kbuf cnd s2)
        else (kbuf, cnd, s1))"
  by pat_completeness auto
termination
proof (relation "measure (\<lambda>(count, kbuf, cnd, s). length (rx_fifo s))")
  have bit0: "(((e AND NOT 1) OR (if P then 0 else 1)) AND (1::u32) = 0) = P" for e P
    by (cases P) (auto simp: bit_eq_iff [where ?'a = u32] bit_simps)
  have shrink: "length (rx_fifo s2) < length (rx_fifo s)"
    if "uart_data_available s = (a, s1)" "a \<noteq> 0" "uart_receive_char s1 = (c, s2)"
    for s a s1 c s2
    using that bit0 [of "lsr_env s (lsr_reads s)" "rx_fifo s = []"]
      bit0 [of "lsr_env s (Suc (lsr_reads s))" "rx_fifo s = []"]
    by (auto simp: uart_data_available_def readl_LSR_def lsr_value_def uart_receive_char_def
          readl_IO_def uart_check_rx_errors_def inc_rx_bytes_def inc_fifo_overruns_def
          split: list.splits if_splits)
  show "wf (measure (\<lambda>(count, kbuf, cnd, s). length (rx_fifo s)))" by simp
  show "((count, kbuf @ [c], 0, s2), (count, kbuf, cnd, s))
          \<in> measure (\<lambda>(count, kbuf, cnd, s). length (rx_fifo s))"
    if "(a, s1) = uart_data_available s" "a \<noteq> 0 \<and> length kbuf < 511 \<and> length kbuf < count"
       "(c, s2) = uart_receive_char s1" 
    for count :: nat and kbuf :: string and cnd :: int and s a s1 c s2
    using shrink [of s a s1 c s2] that by simp
  show "((count, kbuf, cnd, s2), (count, kbuf, cnd, s))
          \<in> measure (\<lambda>(count, kbuf, cnd, s). length (rx_fifo s))"
    if "(a, s1) = uart_data_available s" "a \<noteq> 0 \<and> length kbuf < 511 \<and> length kbuf < count"
       "(c, s2) = uart_receive_char s1" 
    for count :: nat and kbuf :: string and cnd :: int and s a s1 c s2
    using shrink [of s a s1 c s2] that by simp
qed


text \<open>
  The outer loop. After the inner loop the status is read once, by the first condition
  when \<^verbatim>\<open>i > 0\<close> and by the second when \<^verbatim>\<open>i == 0\<close>; \<^verbatim>\<open>break\<close> returns.
\<close>

function rx_outer :: "nat \<Rightarrow> string \<Rightarrow> int \<Rightarrow> uart_state \<Rightarrow> string \<times> int \<times> uart_state" where
  "rx_outer count kbuf cnd s =
     (if length kbuf < 511 \<and> length kbuf < count then
        (case rx_inner count kbuf cnd s of (kbuf1, cnd1, s1) \<Rightarrow>
           if length kbuf1 > 0 then
             (case uart_data_available s1 of (a, s2) \<Rightarrow>
                if a = 0 then
                  (let s3 = usleep_range 1000 1500 s2; cnd2 = cnd1 + 1
                   in if cnd2 \<ge> 300 then (kbuf1, cnd2, s3)
                      else rx_outer count kbuf1 cnd2 s3)
                else rx_outer count kbuf1 cnd1 s2)
           else
             (case uart_data_available s1 of (a, s2) \<Rightarrow>
                if a = 0 then
                  (let s3 = usleep_range 1000 1500 s2; cnd2 = cnd1 + 1
                   in if cnd2 \<ge> 300 then (kbuf1, cnd2, s3)
                      else rx_outer count kbuf1 cnd2 s3)
                else rx_outer count kbuf1 cnd1 s2))
      else (kbuf, cnd, s))"
  by pat_completeness auto
termination
proof (relation "measures [\<lambda>(count, kbuf, cnd, s). length (rx_fifo s),
                           \<lambda>(count, kbuf, cnd, s). nat (300 - cnd)]")
  have bit0: "(((e AND NOT 1) OR (if P then 0 else 1)) AND (1::u32) = 0) = P" for e P
    by (cases P) (auto simp: bit_eq_iff [where ?'a = u32] bit_simps)
  have avail: "rx_fifo s1 = rx_fifo s \<and> (a = 0) = (rx_fifo s = [])"
    if "uart_data_available s = (a, s1)" for s a s1
    using that bit0 [of "lsr_env s (lsr_reads s)" "rx_fifo s = []"]
    by (auto simp: uart_data_available_def readl_LSR_def lsr_value_def)
  have recv: "length (rx_fifo s2) < length (rx_fifo s1)"
    if "rx_fifo s1 \<noteq> []" "uart_receive_char s1 = (c, s2)" for s1 c s2
    using that bit0 [of "lsr_env s1 (lsr_reads s1)" "rx_fifo s1 = []"]
    by (auto simp: uart_data_available_def readl_LSR_def lsr_value_def uart_receive_char_def
          readl_IO_def uart_check_rx_errors_def inc_rx_bytes_def inc_fifo_overruns_def
          split: list.splits if_splits)
  have inner: "length (rx_fifo s1) \<le> length (rx_fifo s) \<and>
       (length (rx_fifo s1) = length (rx_fifo s) \<longrightarrow> kbuf1 = kbuf \<and> cnd1 = cnd) \<and>
       (rx_fifo s1 \<noteq> [] \<longrightarrow> \<not> (length kbuf1 < 511 \<and> length kbuf1 < count))"
    if "rx_inner count kbuf cnd s = (kbuf1, cnd1, s1)" for count kbuf cnd s kbuf1 cnd1 s1
    using that
  proof (induction count kbuf cnd s rule: rx_inner.induct)
    case (1 count kbuf cnd s)
    obtain a sa where a: "uart_data_available s = (a, sa)" by (cases "uart_data_available s")
    note av = avail [OF a]
    show ?case
    proof (cases "a \<noteq> 0 \<and> length kbuf < 511 \<and> length kbuf < count")
      case False
      with "1.prems" a av show ?thesis
        by (subst (asm) rx_inner.simps) auto
    next
      case True
      note go = this
      obtain c sb where c: "uart_receive_char sa = (c, sb)" by (cases "uart_receive_char sa")
      from True av have ne: "rx_fifo sa \<noteq> []" by simp
      note sh = recv [OF ne c]
      show ?thesis
      proof (cases "c \<noteq> CHR 0x00")
        case True
        from "1.prems" a c True go
        have "rx_inner count (kbuf @ [c]) 0 sb = (kbuf1, cnd1, s1)"
          by (subst (asm) rx_inner.simps) simp
        from "1.IH"(1) [OF a [symmetric] go c [symmetric] True this]
        show ?thesis using sh av by auto
      next
        case False
        from "1.prems" a c False go
        have "rx_inner count kbuf cnd sb = (kbuf1, cnd1, s1)"
          by (subst (asm) rx_inner.simps) simp
        from "1.IH"(2) [OF a [symmetric] go c [symmetric] False this]
        show ?thesis using sh av by auto
      qed
    qed
  qed
  have idle: "((count, x, xbb, xba), count, kbuf, cnd, s)
           \<in> measures [\<lambda>(count, kbuf, cnd, s). length (rx_fifo s),
                        \<lambda>(count, kbuf, cnd, s). nat (300 - cnd)]"
    if "(x, y) = rx_inner count kbuf cnd s" "(xa, ya) = y"
       "(xb, yb) = uart_data_available ya" "xb = 0"
       "xba = usleep_range 1000 1500 yb" "xbb = xa + 1" "\<not> 300 \<le> xbb"
    for count :: nat and kbuf :: string and cnd :: int and s :: uart_state
      and x y xa ya xb yb xba xbb
  proof -
    from that have r: "rx_inner count kbuf cnd s = (x, xa, ya)" by simp
    from that have d: "uart_data_available ya = (xb, yb)" by simp
    show ?thesis using inner [OF r] avail [OF d] that(5-7)
      by (auto simp: usleep_range_def)
  qed
  have busy: "((count, x, xa, yb), count, kbuf, cnd, s)
           \<in> measures [\<lambda>(count, kbuf, cnd, s). length (rx_fifo s),
                        \<lambda>(count, kbuf, cnd, s). nat (300 - cnd)]"
    if "length kbuf < 511 \<and> length kbuf < count"
       "(x, y) = rx_inner count kbuf cnd s" "(xa, ya) = y"
       "(xb, yb) = uart_data_available ya" "xb \<noteq> 0"
    for count :: nat and kbuf :: string and cnd :: int and s :: uart_state
      and x y xa ya xb yb
  proof -
    from that have r: "rx_inner count kbuf cnd s = (x, xa, ya)" by simp
    from that have d: "uart_data_available ya = (xb, yb)" by simp
    show ?thesis using inner [OF r] avail [OF d] that(1,5)
      by auto
  qed
  show "wf (measures [\<lambda>(count, kbuf, cnd, s). length (rx_fifo s),
                      \<lambda>(count, kbuf, cnd, s). nat (300 - cnd)])" by simp
  show "((count, x, xbb, xba), count, kbuf, cnd, s)
           \<in> measures [\<lambda>(count, kbuf, cnd, s). length (rx_fifo s),
                        \<lambda>(count, kbuf, cnd, s). nat (300 - cnd)]"
    if "length kbuf < 511 \<and> length kbuf < count"
       "(x, y) = rx_inner count kbuf cnd s" "(xa, ya) = y" "0 < length x"
       "(xb, yb) = uart_data_available ya" "xb = 0"
       "xba = usleep_range 1000 1500 yb" "xbb = xa + 1" "\<not> 300 \<le> xbb"
    for count :: nat and kbuf :: string and cnd :: int and s :: uart_state
      and x y xa ya xb yb xba xbb
    by (rule idle [OF that(2,3,5,6,7,8,9)])
  show "((count, x, xa, yb), count, kbuf, cnd, s)
           \<in> measures [\<lambda>(count, kbuf, cnd, s). length (rx_fifo s),
                        \<lambda>(count, kbuf, cnd, s). nat (300 - cnd)]"
    if "length kbuf < 511 \<and> length kbuf < count"
       "(x, y) = rx_inner count kbuf cnd s" "(xa, ya) = y" "0 < length x"
       "(xb, yb) = uart_data_available ya" "xb \<noteq> 0"
    for count :: nat and kbuf :: string and cnd :: int and s :: uart_state
      and x y xa ya xb yb
    by (rule busy [OF that(1,2,3,5,6)])
  show "((count, x, xbb, xba), count, kbuf, cnd, s)
           \<in> measures [\<lambda>(count, kbuf, cnd, s). length (rx_fifo s),
                        \<lambda>(count, kbuf, cnd, s). nat (300 - cnd)]"
    if "length kbuf < 511 \<and> length kbuf < count"
       "(x, y) = rx_inner count kbuf cnd s" "(xa, ya) = y" "\<not> 0 < length x"
       "(xb, yb) = uart_data_available ya" "xb = 0"
       "xba = usleep_range 1000 1500 yb" "xbb = xa + 1" "\<not> 300 \<le> xbb"
    for count :: nat and kbuf :: string and cnd :: int and s :: uart_state
      and x y xa ya xb yb xba xbb
    by (rule idle [OF that(2,3,5,6,7,8,9)])
  show "((count, x, xa, yb), count, kbuf, cnd, s)
           \<in> measures [\<lambda>(count, kbuf, cnd, s). length (rx_fifo s),
                        \<lambda>(count, kbuf, cnd, s). nat (300 - cnd)]"
    if "length kbuf < 511 \<and> length kbuf < count"
       "(x, y) = rx_inner count kbuf cnd s" "(xa, ya) = y" "\<not> 0 < length x"
       "(xb, yb) = uart_data_available ya" "xb \<noteq> 0"
    for count :: nat and kbuf :: string and cnd :: int and s :: uart_state
      and x y xa ya xb yb
    by (rule busy [OF that(1,2,3,5,6)])
qed

text \<open>
  User memory. A user buffer is the list of bytes that can be accessed at the pointer the
  caller passes: a copy of \<open>n\<close> bytes fails when fewer are accessible.
\<close>

definition copy_from_user :: "string \<Rightarrow> nat \<Rightarrow> string option" where
  "copy_from_user ubuf n = (if n \<le> length ubuf then Some (take n ubuf) else None)"

definition copy_to_user :: "nat \<Rightarrow> string \<Rightarrow> nat \<Rightarrow> string option" where
  "copy_to_user ucap kbuf n = (if n \<le> ucap then Some (take n kbuf) else None)"

text \<open>
  \<^verbatim>\<open>uart_proc_read\<close>, with \<open>ucap\<close> the number of writable bytes at the user pointer.
  The result is the error, or the bytes copied to the user (their number is the return
  value), then the new file position and the state.
\<close>

definition uart_proc_read ::
    "nat \<Rightarrow> nat \<Rightarrow> int \<Rightarrow> uart_state \<Rightarrow> (errno + string) \<times> int \<times> uart_state" where
  "uart_proc_read ucap count ppos s =
     (if ppos > 0 then (Inr [], ppos, s)
      else
        (case rx_wait_first 1000 s of (timeout, s1) \<Rightarrow>
           if timeout \<le> 0 then (Inr [], ppos, s1)
           else
             (case rx_outer count [] 0 s1 of (kbuf, cnd, s2) \<Rightarrow>
                if length kbuf = 0 then (Inr [], ppos, s2)
                else
                  (case copy_to_user ucap kbuf (length kbuf) of
                     None \<Rightarrow> (Inl EFAULT, ppos, inc_rx_errors s2)
                   | Some out \<Rightarrow> (Inr out, ppos + int (length kbuf), s2)))))"

text \<open>
  \<^verbatim>\<open>uart_proc_write\<close>: \<open>ubuf\<close> is the user buffer, \<open>count\<close> the length the caller
  passes. The result is the error or the value returned.
\<close>

definition uart_proc_write :: "string \<Rightarrow> nat \<Rightarrow> uart_state \<Rightarrow> (errno + nat) \<times> uart_state" where
  "uart_proc_write ubuf count s =
     (let len = min count (512 - 1) in
      (case copy_from_user ubuf len of
         None \<Rightarrow> (Inl EFAULT, inc_tx_errors s)
       | Some kbuf \<Rightarrow> (Inr count, uart_send_string kbuf s)))"

section \<open>Configuration\<close>

definition uart_clear_fifos :: "uart_state \<Rightarrow> uart_state" where
  "uart_clear_fifos s = usleep_range 100 150 (writel 0x04 MU_IIR (writel 0x02 MU_IIR s))"

text \<open>
  \<^verbatim>\<open>uart_apply_config\<close>: the divisor is computed from the stored rate before any register
  is written. The configuration mutex has no effect on the state with one caller.
\<close>

definition uart_apply_config :: "uart_state \<Rightarrow> (errno + unit) \<times> uart_state" where
  "uart_apply_config s =
     (case calculate_baud_register (config s) (baudrate (config s)) of
        Inl e \<Rightarrow> (Inl EINVAL, s)
      | Inr baud_reg \<Rightarrow>
          (Inr (),
           writel 0x3 MU_CNTL
             (writel (ucast baud_reg) MU_BAUD
                (writel (data_bits (config s)) MU_LCR
                   (uart_clear_fifos (writel 0x0 MU_CNTL s))))))"

subsection \<open>The kernel's string functions, as the handler uses them\<close>

text \<open>
  A buffer is the list of its bytes; the terminator written after them is left implicit,
  and a C string ends at the first NUL byte.
\<close>

definition cstr :: "string \<Rightarrow> string" where
  "cstr kbuf = takeWhile (\<lambda>c. c \<noteq> CHR 0x00) kbuf"

definition isspace :: "char \<Rightarrow> bool" where
  "isspace c = (c \<in> set [CHR 0x20, CHR 0x09, CHR 0x0A, CHR 0x0B, CHR 0x0C, CHR 0x0D, CHR 0xA0])"

definition isdigit :: "char \<Rightarrow> bool" where
  "isdigit c = (48 \<le> (of_char c :: nat) \<and> (of_char c :: nat) \<le> 57)"

text \<open>The decimal digits at the head of a string, accumulated in 64 bits without a check.\<close>

fun parse_digits :: "u64 \<Rightarrow> string \<Rightarrow> u64" where
  "parse_digits acc [] = acc"
| "parse_digits acc (c # cs) =
     (if isdigit c then parse_digits (acc * 10 + (of_char c - 48)) cs else acc)"

text \<open>
  \<^verbatim>\<open>sscanf(kbuf, "baud=%u", &new_baud) == 1\<close>: the literal has to match, white space
  before the number is skipped, a digit has to follow, and the number is stored in the
  32-bit \<^verbatim>\<open>new_baud\<close>. \<open>None\<close> stands for a result other than 1.
\<close>

definition sscanf_baud :: "string \<Rightarrow> u32 option" where
  "sscanf_baud kbuf =
     (let str = cstr kbuf in
      if take 5 str \<noteq> ''baud='' then None
      else
        (case dropWhile isspace (drop 5 str) of
           [] \<Rightarrow> None
         | d # ds \<Rightarrow> if isdigit d then Some (ucast (parse_digits 0 (d # ds))) else None))"

fun strncmp :: "string \<Rightarrow> string \<Rightarrow> nat \<Rightarrow> int" where
  "strncmp cs ct 0 = 0"
| "strncmp cs ct (Suc n) =
     (let c1 = (case cs of [] \<Rightarrow> CHR 0x00 | x # xs \<Rightarrow> x);
          c2 = (case ct of [] \<Rightarrow> CHR 0x00 | y # ys \<Rightarrow> y)
      in if c1 \<noteq> c2 then (if (of_char c1 :: nat) < of_char c2 then - 1 else 1)
         else if c1 = CHR 0x00 then 0
         else strncmp (tl cs) (tl ct) n)"

subsection \<open>The configuration write handler\<close>

text \<open>The three places where \<^verbatim>\<open>uart_config_write\<close> stores a field and applies it.\<close>

definition apply_and_return :: "nat \<Rightarrow> uart_state \<Rightarrow> (errno + nat) \<times> uart_state" where
  "apply_and_return count s =
     (case uart_apply_config s of
        (Inl e, s1) \<Rightarrow> (Inl EINVAL, s1)
      | (Inr u, s1) \<Rightarrow> (Inr count, s1))"

definition set_baudrate :: "u32 \<Rightarrow> uart_state \<Rightarrow> uart_state" where
  "set_baudrate b s = s\<lparr>config := (config s)\<lparr>baudrate := b\<rparr>\<rparr>"

definition set_data_bits :: "u32 \<Rightarrow> uart_state \<Rightarrow> uart_state" where
  "set_data_bits d s = s\<lparr>config := (config s)\<lparr>data_bits := d\<rparr>\<rparr>"

definition uart_config_write :: "string \<Rightarrow> nat \<Rightarrow> uart_state \<Rightarrow> (errno + nat) \<times> uart_state" where
  "uart_config_write ubuf count s =
     (let len = min count (128 - 1) in
      (case copy_from_user ubuf len of
         None \<Rightarrow> (Inl EFAULT, s)
       | Some kbuf \<Rightarrow>
           (case sscanf_baud kbuf of
              Some new_baud \<Rightarrow>
                if new_baud \<noteq> BAUD_9600 \<and> new_baud \<noteq> BAUD_19200 \<and>
                   new_baud \<noteq> BAUD_38400 \<and> new_baud \<noteq> BAUD_57600 \<and>
                   new_baud \<noteq> BAUD_115200
                then (Inl EINVAL, s)
                else apply_and_return count (set_baudrate new_baud s)
            | None \<Rightarrow>
                if strncmp kbuf ''bits=8'' 6 = 0 then
                  apply_and_return count (set_data_bits DATA_BITS_8 s)
                else if strncmp kbuf ''bits=7'' 6 = 0 then
                  apply_and_return count (set_data_bits DATA_BITS_7 s)
                else if strncmp kbuf ''clear_fifo'' 10 = 0 then
                  (Inr count, uart_clear_fifos s)
                else if strncmp kbuf ''reset_stats'' 11 = 0 then
                  (Inr count, reset_stats s)
                else (Inl EINVAL, s))))"

section \<open>The read-only endpoints\<close>

text \<open>\<^verbatim>\<open>%u\<close> and \<^verbatim>\<open>%llu\<close>: a number in decimal.\<close>

fun dec :: "nat \<Rightarrow> string" where
  "dec n = (if n < 10 then [char_of (48 + n)] else dec (n div 10) @ [char_of (48 + n mod 10)])"

declare dec.simps [simp del]

abbreviation (input) NL :: string where "NL \<equiv> [CHR 0x0A]"
abbreviation (input) DQ :: string where "DQ \<equiv> [CHR 0x22]"

definition config_text :: "uart_config \<Rightarrow> string" where
  "config_text cfg =
     ''UART Configuration'' @ NL @
     ''=================='' @ NL @
     ''Baudrate: '' @ dec (unat (baudrate cfg)) @ NL @
     ''Data bits: '' @ (if data_bits cfg = DATA_BITS_8 then ''8'' else ''7'') @ NL @
     ''System clock: '' @ dec (unat (system_clock cfg)) @ '' Hz'' @ NL @
     NL @ ''Supported baud rates:'' @ NL @
     ''  9600, 19200, 38400, 57600, 115200'' @ NL @
     NL @ ''To change configuration, write:'' @ NL @
     ''  echo '' @ DQ @ ''baud=115200'' @ DQ @ '' > /proc/uart_config'' @ NL @
     ''  echo '' @ DQ @ ''bits=7'' @ DQ @ '' > /proc/uart_config'' @ NL @
     ''  echo '' @ DQ @ ''clear_fifo'' @ DQ @ '' > /proc/uart_config'' @ NL"

definition stats_text :: "uart_stats \<Rightarrow> string" where
  "stats_text st =
     ''UART Statistics'' @ NL @
     ''==============='' @ NL @
     ''TX bytes: '' @ dec (unat (tx_bytes st)) @ NL @
     ''RX bytes: '' @ dec (unat (rx_bytes st)) @ NL @
     ''TX errors: '' @ dec (unat (tx_errors st)) @ NL @
     ''RX errors: '' @ dec (unat (rx_errors st)) @ NL @
     ''FIFO overruns: '' @ dec (unat (fifo_overruns st)) @ NL @
     NL @ ''To reset: echo '' @ DQ @ ''reset_stats'' @ DQ @ '' > /proc/uart_config'' @ NL"

definition status_text :: "u32 \<Rightarrow> u32 \<Rightarrow> string" where
  "status_text lsr stat =
     ''UART Status'' @ NL @
     ''==========='' @ NL @
     ''TX FIFO empty: '' @ (if lsr AND push_bit 5 1 \<noteq> 0 then ''Yes'' else ''No'') @ NL @
     ''TX FIFO full: '' @ (if stat AND push_bit 9 1 \<noteq> 0 then ''Yes'' else ''No'') @ NL @
     ''RX FIFO has data: '' @ (if lsr AND push_bit 0 1 \<noteq> 0 then ''Yes'' else ''No'') @ NL @
     ''RX FIFO overrun: '' @
        (if lsr AND push_bit 1 1 \<noteq> 0 then ''Yes (ERROR!)'' else ''No'') @ NL @
     ''TX FIFO level: '' @ dec (unat (drop_bit 24 stat AND 0xF)) @ NL @
     ''RX FIFO level: '' @ dec (unat (drop_bit 16 stat AND 0xF)) @ NL"

text \<open>
  The common tail of the three read handlers: \<^verbatim>\<open>snprintf\<close> keeps at most 511 bytes of
  the text and returns its full length, the length is cut to \<open>count\<close>, and the copy to the
  user gives the result and the new position.
\<close>

definition read_reply :: "string \<Rightarrow> nat \<Rightarrow> nat \<Rightarrow> int \<Rightarrow> (errno + string) \<times> int" where
  "read_reply text ucap count ppos =
     (let kbuf = take (512 - 1) text;
          len = (if length text > count then count else length text)
      in (case copy_to_user ucap kbuf len of
            None \<Rightarrow> (Inl EFAULT, ppos)
          | Some out \<Rightarrow> (Inr out, ppos + int len)))"

definition uart_config_read :: "nat \<Rightarrow> nat \<Rightarrow> int \<Rightarrow> uart_state \<Rightarrow> (errno + string) \<times> int" where
  "uart_config_read ucap count ppos s =
     (if ppos > 0 then (Inr [], ppos) else read_reply (config_text (config s)) ucap count ppos)"

definition uart_stats_read :: "nat \<Rightarrow> nat \<Rightarrow> int \<Rightarrow> uart_state \<Rightarrow> (errno + string) \<times> int" where
  "uart_stats_read ucap count ppos s =
     (if ppos > 0 then (Inr [], ppos) else read_reply (stats_text (stats s)) ucap count ppos)"

definition uart_status_read ::
    "nat \<Rightarrow> nat \<Rightarrow> int \<Rightarrow> uart_state \<Rightarrow> ((errno + string) \<times> int) \<times> uart_state" where
  "uart_status_read ucap count ppos s =
     (if ppos > 0 then ((Inr [], ppos), s)
      else
        (case readl_LSR s of (lsr, s1) \<Rightarrow>
           (read_reply (status_text lsr (mu_stat s1)) ucap count ppos, s1)))"

section \<open>Notions used to state the properties\<close>

text \<open>The transmitter has space at every read of the line status register.\<close>

definition tx_always_ready :: "uart_state \<Rightarrow> bool" where
  "tx_always_ready s = (\<forall>n. lsr_env s n AND push_bit 5 1 \<noteq> 0)"

text \<open>
  The wire as the specification describes it: every input byte in order, a line feed
  preceded by two carriage returns.
\<close>

fun crlf_expand :: "string \<Rightarrow> u32 list" where
  "crlf_expand [] = []"
| "crlf_expand (c # cs) =
     (if c = CHR 0x0A then [0x0D, 0x0D, 0x0A] else [of_char c]) @ crlf_expand cs"


text \<open>
  Two devices to run the driver on: one whose transmitter always has space (bit 5 of the
  line status set at every read), and one whose transmitter never has.
\<close>

definition idle_device :: uart_state where
  "idle_device =
     \<lparr>config = config_init, stats = stats_zero, writes = [], rx_fifo = [],
      lsr_env = (\<lambda>n. 0x20), lsr_reads = 0, mu_stat = 0, slept_us = 0\<rparr>"


text \<open>
  The number of bytes the receive loop takes from a FIFO when \<open>room\<close> more bytes may be
  stored: a NUL byte is taken without using room.
\<close>

fun rx_consumed :: "nat \<Rightarrow> string \<Rightarrow> nat" where
  "rx_consumed room [] = 0"
| "rx_consumed room (c # cs) =
     (if room = 0 then 0
      else Suc (rx_consumed (if c = CHR 0x00 then room else room - 1) cs))"

text \<open>The bytes a receive call stores: the bytes other than NUL, up to the limit.\<close>

definition rx_stored :: "nat \<Rightarrow> string \<Rightarrow> string" where
  "rx_stored room fifo = take room (filter (\<lambda>c. c \<noteq> CHR 0x00) fifo)"

text \<open>
  The commands of the configuration endpoint as a closed type, and the command a buffer
  is taken for, in the order the handler tries them. A rate that is not one of the five
  is no command.
\<close>

datatype command = Set_baud u32 | Set_bits u32 | Clear_fifo | Reset_stats

definition supported_baud :: "u32 \<Rightarrow> bool" where
  "supported_baud b =
     (b = BAUD_9600 \<or> b = BAUD_19200 \<or> b = BAUD_38400 \<or> b = BAUD_57600 \<or> b = BAUD_115200)"

definition parse_command :: "string \<Rightarrow> command option" where
  "parse_command kbuf =
     (case sscanf_baud kbuf of
        Some n \<Rightarrow> if supported_baud n then Some (Set_baud n) else None
      | None \<Rightarrow>
          if strncmp kbuf ''bits=8'' 6 = 0 then Some (Set_bits DATA_BITS_8)
          else if strncmp kbuf ''bits=7'' 6 = 0 then Some (Set_bits DATA_BITS_7)
          else if strncmp kbuf ''clear_fifo'' 10 = 0 then Some Clear_fifo
          else if strncmp kbuf ''reset_stats'' 11 = 0 then Some Reset_stats
          else None)"

text \<open>
  Comparing statistics. A counter has grown by at most \<open>n\<close> when the difference, taken
  in 64 bits, is at most \<open>n\<close>; it has room for \<open>n\<close> when \<open>n\<close> more increments do not
  reach \<open>2 ^ 64\<close>.
\<close>

definition counter_grows :: "nat \<Rightarrow> u64 \<Rightarrow> u64 \<Rightarrow> bool" where
  "counter_grows n x y = (unat (y - x) \<le> n)"

definition stats_grow :: "nat \<Rightarrow> uart_stats \<Rightarrow> uart_stats \<Rightarrow> bool" where
  "stats_grow n a b =
     (counter_grows n (tx_bytes a) (tx_bytes b) \<and> counter_grows n (rx_bytes a) (rx_bytes b) \<and>
      counter_grows n (tx_errors a) (tx_errors b) \<and> counter_grows n (rx_errors a) (rx_errors b) \<and>
      counter_grows n (fifo_overruns a) (fifo_overruns b))"

definition stats_le :: "uart_stats \<Rightarrow> uart_stats \<Rightarrow> bool" where
  "stats_le a b =
     (unat (tx_bytes a) \<le> unat (tx_bytes b) \<and> unat (rx_bytes a) \<le> unat (rx_bytes b) \<and>
      unat (tx_errors a) \<le> unat (tx_errors b) \<and> unat (rx_errors a) \<le> unat (rx_errors b) \<and>
      unat (fifo_overruns a) \<le> unat (fifo_overruns b))"

definition stats_headroom :: "nat \<Rightarrow> uart_stats \<Rightarrow> bool" where
  "stats_headroom n a =
     (unat (tx_bytes a) + n < 2 ^ 64 \<and> unat (rx_bytes a) + n < 2 ^ 64 \<and>
      unat (tx_errors a) + n < 2 ^ 64 \<and> unat (rx_errors a) + n < 2 ^ 64 \<and>
      unat (fifo_overruns a) + n < 2 ^ 64)"

text \<open>The calls of the five endpoints, and the state each leaves.\<close>

datatype operation =
    Write_data string nat
  | Read_data nat nat int
  | Config_write string nat
  | Config_read nat nat int
  | Status_read nat nat int
  | Stats_read nat nat int

fun run :: "operation \<Rightarrow> uart_state \<Rightarrow> uart_state" where
  "run (Write_data ubuf count) s = snd (uart_proc_write ubuf count s)"
| "run (Read_data ucap count ppos) s = snd (snd (uart_proc_read ucap count ppos s))"
| "run (Config_write ubuf count) s = snd (uart_config_write ubuf count s)"
| "run (Config_read ucap count ppos) s = s"
| "run (Status_read ucap count ppos) s = snd (uart_status_read ucap count ppos s)"
| "run (Stats_read ucap count ppos) s = s"

text \<open>The operation is a write of the \<open>reset_stats\<close> command.\<close>

fun is_reset_stats :: "operation \<Rightarrow> bool" where
  "is_reset_stats (Config_write ubuf count) =
     (case copy_from_user ubuf (min count 127) of
        None \<Rightarrow> False
      | Some kbuf \<Rightarrow> parse_command kbuf = Some Reset_stats)"
| "is_reset_stats other = False"

text \<open>
  The configurations the driver works with: the clock is the one the module is built
  with and the stored rate is one of the five.
\<close>

definition config_valid :: "uart_config \<Rightarrow> bool" where
  "config_valid cfg = (system_clock cfg = 500000000 \<and> supported_baud (baudrate cfg))"

text \<open>
  The states the driver can be in: the module is loaded with the initial configuration
  (whatever the device and the counters hold), and then the endpoints are called.
\<close>

inductive reachable :: "uart_state \<Rightarrow> bool" where
  loaded: "config s = config_init \<Longrightarrow> reachable s"
| called: "reachable s \<Longrightarrow> reachable (run op s)"

text \<open>A device as \<open>idle_device\<close> whose \<open>tx_bytes\<close> counter holds the largest 64-bit value.\<close>

definition full_counter_device :: uart_state where
  "full_counter_device = idle_device\<lparr>stats := stats_zero\<lparr>tx_bytes := 0xFFFFFFFFFFFFFFFF\<rparr>\<rparr>"


section \<open>The baud rate register\<close>

lemma unat_8_mult:
  fixes b c :: u32
  assumes "unat b \<le> unat c div 8"
  shows "unat (8 * b) = 8 * unat b"
proof -
  have "unat c < 2 ^ 32" using unsigned_less [of c] by simp
  with assms have "8 * unat b < 2 ^ 32" by simp
  then show ?thesis by (simp add: unat_word_ariths)
qed

lemma calculate_baud_register_nat:
  "calculate_baud_register cfg b =
     (if unat b = 0 \<or> unat (system_clock cfg) div 8 < unat b then Inl Invalid_baud_rate
      else if 0xFFFF < unat (system_clock cfg) div (8 * unat b) - 1 then Inl Baud_calc_overflow
      else Inr (of_nat (unat (system_clock cfg) div (8 * unat b) - 1)))"
proof (cases "b = 0 \<or> b > system_clock cfg div 8")
  case True
  then show ?thesis
    by (auto simp: calculate_baud_register_def word_less_nat_alt unat_div unat_eq_0)
next
  case False
  define c where "c = system_clock cfg"
  from False have b0: "unat b \<noteq> 0" and le: "unat b \<le> unat c div 8"
    by (auto simp: c_def word_less_nat_alt word_le_nat_alt unat_div unat_eq_0 not_less)
  have m: "unat (8 * b) = 8 * unat b" using le by (rule unat_8_mult)
  have q: "unat (c div (8 * b)) = unat c div (8 * unat b)" by (simp add: unat_div m)
  have "8 * unat b \<le> unat c" using le by simp
  then have q1: "1 \<le> unat c div (8 * unat b)" using b0
    by (simp add: div_greater_zero_iff Suc_le_eq)
  then have "c div (8 * b) \<noteq> 0" using q by (metis not_one_le_zero unat_0)
  then have r: "unat (c div (8 * b) - 1) = unat c div (8 * unat b) - 1"
    using q by (simp add: unat_minus_one)
  have gt: "(c div (8 * b) - 1 > 0xFFFF) = (0xFFFF < unat c div (8 * unat b) - 1)"
    by (simp add: word_less_nat_alt r)
  have uc: "(ucast (c div (8 * b) - 1) :: u16) = of_nat (unat c div (8 * unat b) - 1)"
    using r by (metis of_nat_unat)
  show ?thesis using False b0 le gt uc
    by (simp add: calculate_baud_register_def c_def Let_def not_less word_less_nat_alt unat_div)
qed

lemma unat_of_nat_u16: "n \<le> 0xFFFF \<Longrightarrow> unat (of_nat n :: u16) = n"
  by (simp add: unat_of_nat)

text \<open>
  Claim C2. With \<open>c\<close> the clock and \<open>b\<close> the rate as numbers, the computation fails for
  an invalid rate exactly when \<open>b = 0\<close> or \<open>b > c div 8\<close>; otherwise it fails for overflow
  exactly when \<open>c div (8 * b) - 1\<close> exceeds 0xFFFF, and otherwise returns that value. With
  the clock at 500,000,000 each of the five supported rates gives a 16-bit divisor, and
  115200 gives 541.
\<close>

theorem calculate_baud_register_spec:
  "(calculate_baud_register cfg b = Inl Invalid_baud_rate
      \<longleftrightarrow> b = 0 \<or> unat (system_clock cfg) div 8 < unat b) \<and>
   (calculate_baud_register cfg b = Inl Baud_calc_overflow
      \<longleftrightarrow> \<not> (b = 0 \<or> unat (system_clock cfg) div 8 < unat b) \<and>
          0xFFFF < unat (system_clock cfg) div (8 * unat b) - 1) \<and>
   (calculate_baud_register cfg b = Inr d
      \<longleftrightarrow> \<not> (b = 0 \<or> unat (system_clock cfg) div 8 < unat b) \<and>
          \<not> 0xFFFF < unat (system_clock cfg) div (8 * unat b) - 1 \<and>
          unat d = unat (system_clock cfg) div (8 * unat b) - 1) \<and>
   calculate_baud_register (cfg\<lparr>system_clock := 500000000\<rparr>) BAUD_9600 = Inr 6509 \<and>
   calculate_baud_register (cfg\<lparr>system_clock := 500000000\<rparr>) BAUD_19200 = Inr 3254 \<and>
   calculate_baud_register (cfg\<lparr>system_clock := 500000000\<rparr>) BAUD_38400 = Inr 1626 \<and>
   calculate_baud_register (cfg\<lparr>system_clock := 500000000\<rparr>) BAUD_57600 = Inr 1084 \<and>
   calculate_baud_register (cfg\<lparr>system_clock := 500000000\<rparr>) BAUD_115200 = Inr 541"
proof -
  let ?c = "unat (system_clock cfg)"
  let ?v = "?c div (8 * unat b) - 1"
  have inv: "(calculate_baud_register cfg b = Inl Invalid_baud_rate)
      = (b = 0 \<or> ?c div 8 < unat b)"
    by (simp add: calculate_baud_register_nat unat_eq_0)
  have ovf: "(calculate_baud_register cfg b = Inl Baud_calc_overflow)
      = (\<not> (b = 0 \<or> ?c div 8 < unat b) \<and> 0xFFFF < ?v)"
    by (simp add: calculate_baud_register_nat unat_eq_0)
  have val: "(calculate_baud_register cfg b = Inr d)
      = (\<not> (b = 0 \<or> ?c div 8 < unat b) \<and> \<not> 0xFFFF < ?v \<and> unat d = ?v)"
  proof (cases "(b = 0 \<or> ?c div 8 < unat b) \<or> 0xFFFF < ?v")
    case True
    then show ?thesis by (auto simp: calculate_baud_register_nat unat_eq_0)
  next
    case False
    then have le: "?v \<le> 0xFFFF" by simp
    have "(of_nat ?v = d) = (unat d = ?v)"
      using unat_of_nat_u16 [OF le] by (metis of_nat_unat ucast_id)
    with False show ?thesis by (simp add: calculate_baud_register_nat unat_eq_0)
  qed
  have five:
    "calculate_baud_register (cfg\<lparr>system_clock := 500000000\<rparr>) BAUD_9600 = Inr 6509"
    "calculate_baud_register (cfg\<lparr>system_clock := 500000000\<rparr>) BAUD_19200 = Inr 3254"
    "calculate_baud_register (cfg\<lparr>system_clock := 500000000\<rparr>) BAUD_38400 = Inr 1626"
    "calculate_baud_register (cfg\<lparr>system_clock := 500000000\<rparr>) BAUD_57600 = Inr 1084"
    "calculate_baud_register (cfg\<lparr>system_clock := 500000000\<rparr>) BAUD_115200 = Inr 541"
    by (simp_all add: calculate_baud_register_def)
  from inv ovf val five show ?thesis by blast
qed

section \<open>The transmit path\<close>

declare wait_tx_space.simps [simp del] uart_send_char.simps [simp del]

lemma lsr_mask_gen:
  "k \<noteq> 0 \<Longrightarrow>
     ((e AND NOT 1) OR (if P then 0 else 1)) AND push_bit k (1::u32) = e AND push_bit k 1"
  by (rule bit_eqI) (auto simp: bit_simps)

lemma lsr_value_and_32 [simp]: "lsr_value s AND 32 = lsr_env s (lsr_reads s) AND 32"
  using lsr_mask_gen [of 5 "lsr_env s (lsr_reads s)" "rx_fifo s = []"]
  by (simp add: lsr_value_def)

lemma lsr_value_and_2 [simp]: "lsr_value s AND 2 = lsr_env s (lsr_reads s) AND 2"
  using lsr_mask_gen [of 1 "lsr_env s (lsr_reads s)" "rx_fifo s = []"]
  by (simp add: lsr_value_def)

lemma lsr_bit0_gen: "(((e AND NOT 1) OR (if P then 0 else 1)) AND (1::u32) = 0) = P"
  by (cases P) (auto simp: bit_eq_iff [where ?'a = u32] bit_simps)

lemma lsr_value_and_1 [simp]: "(lsr_value s AND 1 = 0) = (rx_fifo s = [])"
  unfolding lsr_value_def by (rule lsr_bit0_gen)

lemma wait_tx_space_fields:
  "wait_tx_space t s = (t', s') \<Longrightarrow>
     config s' = config s \<and> stats s' = stats s \<and> writes s' = writes s \<and>
     rx_fifo s' = rx_fifo s \<and> lsr_env s' = lsr_env s \<and> mu_stat s' = mu_stat s"
proof (induction t s arbitrary: t' s' rule: wait_tx_space.induct)
  case (1 timeout s)
  show ?case
  proof (cases "lsr_value s AND 32 = 0 \<and> timeout > 0")
    case True
    with "1.prems" have
      "wait_tx_space (timeout - 1) (usleep_range 1 2 (s\<lparr>lsr_reads := Suc (lsr_reads s)\<rparr>)) = (t', s')"
      by (subst (asm) wait_tx_space.simps) (simp add: readl_LSR_def)
    from "1.IH" [OF _ _ _ this] True show ?thesis
      by (simp add: readl_LSR_def usleep_range_def)
  next
    case False
    with "1.prems" show ?thesis
      by (subst (asm) wait_tx_space.simps) (auto simp: readl_LSR_def split: if_splits)
  qed
qed

lemma wait_tx_space_ready:
  "tx_always_ready s \<Longrightarrow> wait_tx_space t s = (t, s\<lparr>lsr_reads := Suc (lsr_reads s)\<rparr>)"
  by (subst wait_tx_space.simps)
     (simp add: readl_LSR_def tx_always_ready_def)


lemma unat_of_char_u32: "unat (of_char c :: u32) = of_char c"
proof -
  have lt: "(of_char c :: nat) < 2 ^ LENGTH(32)"
    by (rule less_trans [OF nat_of_char_less_256]) simp
  have eq: "of_nat (of_char c) = (of_char c :: u32)" by (simp add: of_nat_of_char)
  show ?thesis by (rule of_nat_inverse [OF eq lt])
qed

lemma of_char_u32_eq_iff [simp]: "((of_char c :: u32) = of_char d) = (c = d)"
proof
  assume "(of_char c :: u32) = of_char d"
  then have "unat (of_char c :: u32) = unat (of_char d :: u32)" by simp
  then show "c = d" by (simp add: unat_of_char_u32)
qed simp

lemma of_char_and_ff [simp]: "(of_char c :: u32) AND 0xFF = of_char c"
proof -
  have "unat ((of_char c :: u32) AND 0xFF) = unat (of_char c :: u32) AND 255"
    by (simp add: unsigned_and_eq)
  also have "\<dots> = take_bit 8 (of_char c :: nat)"
    by (simp add: unat_of_char_u32 take_bit_eq_mask mask_eq_exp_minus_1)
  also have "\<dots> = of_char c" by (simp add: take_bit_eq_mod)
  finally have "unat ((of_char c :: u32) AND 0xFF) = unat (of_char c :: u32)"
    by (simp add: unat_of_char_u32)
  then show ?thesis by (rule word_unat_eq_iff [THEN iffD2])
qed

lemma of_char_u32_LF [simp]: "((of_char c :: u32) = 0x0A) = (c = CHR 0x0A)"
  using of_char_u32_eq_iff [of c "CHR 0x0A"] by simp

lemma wire_simps [simp]:
  "wire (writel v MU_IO s) = wire s @ [v]"
  "wire (inc_tx_bytes s) = wire s"
  "wire (inc_tx_errors s) = wire s"
  "wire (s\<lparr>lsr_reads := n\<rparr>) = wire s"
  by (simp_all add: wire_def writel_def inc_tx_bytes_def inc_tx_errors_def Let_def)

lemma tx_always_ready_env: "lsr_env s' = lsr_env s \<Longrightarrow> tx_always_ready s' = tx_always_ready s"
  by (simp add: tx_always_ready_def)

lemma uart_send_char_plain:
  "c \<noteq> CHR 0x0A \<Longrightarrow>
   uart_send_char c s =
     (case wait_tx_space 10000 s of (timeout, s1) \<Rightarrow>
        if timeout \<le> 0 then inc_tx_errors s1
        else inc_tx_bytes (writel (of_char c) MU_IO s1))"
  by (subst uart_send_char.simps) (simp split: prod.split)

lemma uart_send_char_LF:
  "uart_send_char (CHR 0x0A) s =
     (case wait_tx_space 10000 (uart_send_char (CHR 0x0D) s) of (timeout, s1) \<Rightarrow>
        if timeout \<le> 0 then inc_tx_errors s1
        else inc_tx_bytes (writel 0x0A MU_IO s1))"
  using of_char_and_ff [of "CHR 0x0A"]
  by (subst uart_send_char.simps) (simp split: prod.split)

lemma uart_send_char_plain_ready:
  "tx_always_ready s \<Longrightarrow> c \<noteq> CHR 0x0A \<Longrightarrow>
   uart_send_char c s =
     inc_tx_bytes (writel (of_char c) MU_IO (s\<lparr>lsr_reads := Suc (lsr_reads s)\<rparr>))"
  by (simp add: uart_send_char_plain wait_tx_space_ready)

lemma uart_send_char_env: "lsr_env (uart_send_char c s) = lsr_env s"
proof -
  have plain: "lsr_env (uart_send_char c s) = lsr_env s" if "c \<noteq> CHR 0x0A" for c s
  proof -
    obtain t s1 where w: "wait_tx_space 10000 s = (t, s1)" by (cases "wait_tx_space 10000 s")
    from wait_tx_space_fields [OF w] that w show ?thesis
      by (simp add: uart_send_char_plain inc_tx_errors_def inc_tx_bytes_def writel_def Let_def)
  qed
  show ?thesis
  proof (cases "c = CHR 0x0A")
    case False
    then show ?thesis by (rule plain)
  next
    case True
    obtain t s1 where w: "wait_tx_space 10000 (uart_send_char (CHR 0x0D) s) = (t, s1)"
      by (cases "wait_tx_space 10000 (uart_send_char (CHR 0x0D) s)")
    from wait_tx_space_fields [OF w] True w plain [of "CHR 0x0D" s] show ?thesis
      by (simp add: uart_send_char_LF inc_tx_errors_def inc_tx_bytes_def writel_def Let_def)
  qed
qed

lemma uart_send_char_ready_keeps: "tx_always_ready (uart_send_char c s) = tx_always_ready s"
  by (rule tx_always_ready_env) (rule uart_send_char_env)

lemma uart_send_char_wire_ready:
  assumes "tx_always_ready s"
  shows "wire (uart_send_char c s) = wire s @ (if c = CHR 0x0A then [0x0D, 0x0A] else [of_char c])"
proof (cases "c = CHR 0x0A")
  case False
  with assms show ?thesis by (simp add: uart_send_char_plain_ready)
next
  case True
  let ?s1 = "uart_send_char (CHR 0x0D) s"
  have r1: "tx_always_ready ?s1" using assms by (simp add: uart_send_char_ready_keeps)
  have w1: "wire ?s1 = wire s @ [0x0D]" using assms by (simp add: uart_send_char_plain_ready)
  show ?thesis using True w1
    by (simp add: uart_send_char_LF wait_tx_space_ready [OF r1])
qed

lemma uart_send_string_env: "lsr_env (uart_send_string cs s) = lsr_env s"
  by (induction cs arbitrary: s) (simp_all add: Let_def uart_send_char_env)

lemma uart_send_string_cstr: "uart_send_string (cstr cs) s = uart_send_string cs s"
  by (induction cs arbitrary: s) (simp_all add: cstr_def Let_def)

lemma uart_send_string_wire_ready:
  "tx_always_ready s \<Longrightarrow> wire (uart_send_string cs s) = wire s @ crlf_expand (cstr cs)"
proof (induction cs arbitrary: s)
  case Nil
  then show ?case by (simp add: cstr_def)
next
  case (Cons c cs)
  show ?case
  proof (cases "c = CHR 0x00")
    case True
    then show ?thesis by (simp add: cstr_def)
  next
    case False
    let ?s1 = "if c = CHR 0x0A then uart_send_char (CHR 0x0D) s else s"
    have r1: "tx_always_ready ?s1" using Cons.prems by (simp add: uart_send_char_ready_keeps)
    have r2: "tx_always_ready (uart_send_char c ?s1)"
      using r1 by (simp only: uart_send_char_ready_keeps)
    have w1: "wire ?s1 = wire s @ (if c = CHR 0x0A then [0x0D] else [])"
      using Cons.prems by (simp add: uart_send_char_wire_ready)
    have w2: "wire (uart_send_char c ?s1) = wire ?s1 @ (if c = CHR 0x0A then [0x0D, 0x0A] else [of_char c])"
      using r1 by (rule uart_send_char_wire_ready)
    have "wire (uart_send_string (c # cs) s) = wire (uart_send_char c ?s1) @ crlf_expand (cstr cs)"
      using False Cons.IH [OF r2] by (simp add: Let_def)
    with w1 w2 False show ?thesis by (simp add: cstr_def)
  qed
qed


lemma crlf_expand_lf:
  "i < length (crlf_expand cs) \<Longrightarrow> crlf_expand cs ! i = 0x0A \<Longrightarrow>
     1 < i \<and> crlf_expand cs ! (i - 1) = 0x0D \<and> crlf_expand cs ! (i - 2) = 0x0D"
proof (induction cs arbitrary: i)
  case Nil
  then show ?case by simp
next
  case (Cons c cs)
  show ?case
  proof (cases "c = CHR 0x0A")
    case True
    note lf = this
    show ?thesis
    proof (cases "i < 3")
      case True
      then have "i = 0 \<or> i = 1 \<or> i = 2" by arith
      with Cons.prems lf show ?thesis by auto
    next
      case False
      then obtain j where j: "i = j + 3" by (metis add.commute le_Suc_ex not_less)
      with Cons.prems lf have "j < length (crlf_expand cs)" "crlf_expand cs ! j = 0x0A"
        by simp_all
      from Cons.IH [OF this] obtain j' where j': "j = j' + 2"
        by (metis add.commute less_imp_Suc_add add_2_eq_Suc' plus_1_eq_Suc )
      with Cons.IH [OF \<open>j < length (crlf_expand cs)\<close> \<open>crlf_expand cs ! j = 0x0A\<close>] j lf
      show ?thesis by (simp add: numeral_3_eq_3 numeral_2_eq_2)
    qed
  next
    case False
    note nlf = this
    show ?thesis
    proof (cases i)
      case 0
      with Cons.prems nlf show ?thesis by simp
    next
      case (Suc j)
      with Cons.prems nlf have "j < length (crlf_expand cs)" "crlf_expand cs ! j = 0x0A"
        by simp_all
      from Cons.IH [OF this] obtain j' where j': "j = j' + 2"
        by (metis add.commute less_imp_Suc_add add_2_eq_Suc' plus_1_eq_Suc )
      with Cons.IH [OF \<open>j < length (crlf_expand cs)\<close> \<open>crlf_expand cs ! j = 0x0A\<close>] Suc nlf
      show ?thesis by (simp add: numeral_2_eq_2)
    qed
  qed
qed

text \<open>
  Claim C4. When the transmitter has space at every poll, \<^verbatim>\<open>uart_send_string\<close> puts on
  the wire the bytes of its string in order, each line feed as two carriage returns and
  the line feed; so every line feed of the output directly follows a carriage return
  (in fact two). The string of a \<^verbatim>\<open>const char *\<close> is the part before the first NUL.
\<close>

theorem send_string_wire_crlf:
  assumes "tx_always_ready s"
  shows "wire (uart_send_string input s) = wire s @ crlf_expand (cstr input) \<and>
         (\<forall>i < length (crlf_expand (cstr input)).
            crlf_expand (cstr input) ! i = 0x0A \<longrightarrow>
              1 < i \<and> crlf_expand (cstr input) ! (i - 1) = 0x0D \<and>
              crlf_expand (cstr input) ! (i - 2) = 0x0D)"
  using uart_send_string_wire_ready [OF assms] crlf_expand_lf by blast

theorem send_string_wire_crlf_witness:
  "tx_always_ready idle_device \<and>
   wire (uart_send_string [CHR ''a'', CHR 0x0A, CHR ''b''] idle_device)
     = [0x61, 0x0D, 0x0D, 0x0A, 0x62] \<and>
   3 < length (crlf_expand (cstr [CHR ''a'', CHR 0x0A, CHR ''b''])) \<and>
   crlf_expand (cstr [CHR ''a'', CHR 0x0A, CHR ''b'']) ! 3 = 0x0A \<and>
   crlf_expand (cstr [CHR ''a'', CHR 0x0A, CHR ''b'']) ! (3 - 1) = 0x0D \<and>
   crlf_expand (cstr [CHR ''a'', CHR 0x0A, CHR ''b'']) ! (3 - 2) = 0x0D"
proof -
  have r: "tx_always_ready idle_device"
    by (simp add: tx_always_ready_def idle_device_def)
  show ?thesis
    using r send_string_wire_crlf [OF r, of "[CHR ''a'', CHR 0x0A, CHR ''b'']"]
    by (simp add: cstr_def wire_def idle_device_def)
qed



lemma uart_send_char_cases:
  fixes c :: char and s :: uart_state
  defines "s0 \<equiv> (if c = CHR 0x0A then uart_send_char (CHR 0x0D) s else s)"
  shows "(case wait_tx_space 10000 s0 of (timeout, s1) \<Rightarrow>
      (timeout \<le> 0 \<and> uart_send_char c s = inc_tx_errors s1 \<and>
         writes (uart_send_char c s) = writes s0 \<and>
         stats (uart_send_char c s) = (stats s0)\<lparr>tx_errors := tx_errors (stats s0) + 1\<rparr>) \<or>
      (0 < timeout \<and> uart_send_char c s = inc_tx_bytes (writel (of_char c) MU_IO s1) \<and>
         writes (uart_send_char c s) = writes s0 @ [(MU_IO, of_char c)] \<and>
         stats (uart_send_char c s) = (stats s0)\<lparr>tx_bytes := tx_bytes (stats s0) + 1\<rparr>))"
proof -
  obtain t s1 where w: "wait_tx_space 10000 s0 = (t, s1)" by (cases "wait_tx_space 10000 s0")
  note f = wait_tx_space_fields [OF w]
  have u: "uart_send_char c s =
      (if t \<le> 0 then inc_tx_errors s1 else inc_tx_bytes (writel (of_char c) MU_IO s1))"
    using w by (subst uart_send_char.simps) (simp add: s0_def Let_def)
  show ?thesis using w f u
    by (simp add: inc_tx_errors_def inc_tx_bytes_def writel_def Let_def)
qed





section \<open>The transmit endpoint\<close>

lemma uart_proc_write_ok:
  assumes "min count 511 \<le> length ubuf"
  shows "uart_proc_write ubuf count s
           = (Inr count, uart_send_string (cstr (take (min count 511) ubuf)) s)"
  using assms by (simp add: uart_proc_write_def copy_from_user_def uart_send_string_cstr)

lemma uart_proc_write_fault:
  assumes "length ubuf < min count 511"
  shows "uart_proc_write ubuf count s = (Inl EFAULT, inc_tx_errors s)"
  using assms by (auto simp: uart_proc_write_def copy_from_user_def Let_def)

lemma length_cstr_eq: "(length (cstr xs) = length xs) = (CHR 0x00 \<notin> set xs)"
proof -
  have "(length (cstr xs) = length xs) = (cstr xs = xs)"
    unfolding cstr_def
    by (metis takeWhile_eq_take length_takeWhile_le take_all_iff)
  then show ?thesis by (auto simp: cstr_def takeWhile_eq_all_conv)
qed

lemma length_cstr_le: "length (cstr xs) \<le> length xs"
  by (simp add: cstr_def length_takeWhile_le)

lemma crlf_expand_replicate:
  "c \<noteq> CHR 0x0A \<Longrightarrow> crlf_expand (replicate n c) = replicate n (of_char c)"
  by (induction n) simp_all

lemma cstr_replicate: "c \<noteq> CHR 0x00 \<Longrightarrow> cstr (replicate n c) = replicate n c"
  by (simp add: cstr_def takeWhile_eq_all_conv [THEN iffD2])

text \<open>
  Claim C5, as the code has it. \<^verbatim>\<open>uart_proc_write\<close> fails only when the user buffer
  cannot be read (\<^verbatim>\<open>-EFAULT\<close>, one more \<open>tx_errors\<close>, nothing sent). Otherwise it returns
  \<open>count\<close> whatever the length, and passes to the transmit path the first
  \<open>min count 511\<close> bytes up to the first NUL; what lies beyond is dropped. The value
  returned is the number of bytes passed on exactly when \<open>count \<le> 511\<close> and these bytes
  hold no NUL.
\<close>

theorem proc_write_truncates:
  "(min count 511 \<le> length ubuf \<longrightarrow>
      fst (uart_proc_write ubuf count s) = Inr count \<and>
      snd (uart_proc_write ubuf count s)
        = uart_send_string (cstr (take (min count 511) ubuf)) s \<and>
      (tx_always_ready s \<longrightarrow>
         wire (snd (uart_proc_write ubuf count s))
           = wire s @ crlf_expand (cstr (take (min count 511) ubuf))) \<and>
      ((length (cstr (take (min count 511) ubuf)) = count)
         = (count \<le> 511 \<and> CHR 0x00 \<notin> set (take count ubuf)))) \<and>
   (length ubuf < min count 511 \<longrightarrow>
      uart_proc_write ubuf count s = (Inl EFAULT, inc_tx_errors s))"
proof (intro conjI impI)
  assume ok: "min count 511 \<le> length ubuf"
  note w = uart_proc_write_ok [OF ok, of s]
  show "fst (uart_proc_write ubuf count s) = Inr count" by (simp add: w)
  show "snd (uart_proc_write ubuf count s)
        = uart_send_string (cstr (take (min count 511) ubuf)) s" by (simp add: w)
  show "wire (snd (uart_proc_write ubuf count s))
           = wire s @ crlf_expand (cstr (take (min count 511) ubuf))" if "tx_always_ready s"
    using uart_send_string_wire_ready [OF that, of "cstr (take (min count 511) ubuf)"]
    by (simp add: w cstr_def)
  show "(length (cstr (take (min count 511) ubuf)) = count)
         = (count \<le> 511 \<and> CHR 0x00 \<notin> set (take count ubuf))"
  proof (cases "count \<le> 511")
    case True
    with ok have "length (take (min count 511) ubuf) = count" by simp
    with True show ?thesis
      using length_cstr_eq [of "take (min count 511) ubuf"] by (simp add: min_def)
  next
    case False
    have "length (cstr (take (min count 511) ubuf)) \<le> 511"
      using length_cstr_le [of "take (min count 511) ubuf"] by simp
    with False show ?thesis by simp
  qed
next
  assume "length ubuf < min count 511"
  then show "uart_proc_write ubuf count s = (Inl EFAULT, inc_tx_errors s)"
    by (rule uart_proc_write_fault)
qed

theorem proc_write_truncates_witness:
  "min 2 511 \<le> length ''hi'' \<and> tx_always_ready idle_device \<and>
   fst (uart_proc_write ''hi'' 2 idle_device) = Inr 2 \<and>
   wire (snd (uart_proc_write ''hi'' 2 idle_device)) = [0x68, 0x69] \<and>
   length ''hi'' < min 5 511 \<and>
   fst (uart_proc_write ''hi'' 5 idle_device) = Inl EFAULT \<and>
   tx_errors (stats (snd (uart_proc_write ''hi'' 5 idle_device))) = 1"
proof -
  have r: "tx_always_ready idle_device"
    by (simp add: tx_always_ready_def idle_device_def)
  have w0: "wire idle_device = []" "tx_errors (stats idle_device) = 0"
    by (simp_all add: wire_def idle_device_def stats_zero_def)
  have len: "min 2 511 \<le> length ''hi''" by simp
  from proc_write_truncates [of 2 "''hi''" idle_device] len r
  have "fst (uart_proc_write ''hi'' 2 idle_device) = Inr 2"
    and "wire (snd (uart_proc_write ''hi'' 2 idle_device))
           = wire idle_device @ crlf_expand (cstr (take (min 2 511) ''hi''))"
    by blast+
  then have a: "fst (uart_proc_write ''hi'' 2 idle_device) = Inr 2 \<and>
      wire (snd (uart_proc_write ''hi'' 2 idle_device)) = [0x68, 0x69]"
    using w0 by (simp add: cstr_def)
  have b: "fst (uart_proc_write ''hi'' 5 idle_device) = Inl EFAULT \<and>
      tx_errors (stats (snd (uart_proc_write ''hi'' 5 idle_device))) = 1"
    using w0 proc_write_truncates [of 5 "''hi''" idle_device]
    by (simp add: inc_tx_errors_def)
  from r a b show ?thesis by simp
qed

text \<open>
  Claim C5 as stated fails: a write of 600 bytes is accepted, returns 600, and 511 bytes
  reach the wire.
\<close>

theorem proc_write_long_input_accepted:
  "fst (uart_proc_write (replicate 600 (CHR ''A'')) 600 idle_device) = Inr 600 \<and>
   length (wire (snd (uart_proc_write (replicate 600 (CHR ''A'')) 600 idle_device))) = 511"
proof -
  have r: "tx_always_ready idle_device"
    by (simp add: tx_always_ready_def idle_device_def)
  have w: "uart_proc_write (replicate 600 (CHR ''A'')) 600 idle_device
      = (Inr 600, uart_send_string (cstr (take (min 600 511) (replicate 600 (CHR ''A'')))) idle_device)"
    by (rule uart_proc_write_ok) simp
  have "wire (uart_send_string (cstr (take (min 600 511) (replicate 600 (CHR ''A'')))) idle_device)
      = wire idle_device @ crlf_expand (cstr (cstr (take (min 600 511) (replicate 600 (CHR ''A'')))))"
    by (rule uart_send_string_wire_ready [OF r])
  also have "\<dots> = replicate 511 0x41"
    by (simp add: cstr_replicate crlf_expand_replicate wire_def idle_device_def)
  finally show ?thesis by (simp add: w)
qed

section \<open>The receive path\<close>

declare rx_wait_first.simps [simp del] rx_inner.simps [simp del] rx_outer.simps [simp del]

lemma char_of_unat_of_char [simp]: "char_of (unat (of_char c :: u32)) = c"
  by (simp add: unat_of_char_u32)

lemma uart_data_available_eq:
  "uart_data_available s = (lsr_value s AND 1, s\<lparr>lsr_reads := Suc (lsr_reads s)\<rparr>)"
  by (simp add: uart_data_available_def readl_LSR_def)

lemma uart_receive_char_Cons:
  assumes "rx_fifo s = c # cs"
  shows "fst (uart_receive_char s) = c"
    and "rx_fifo (snd (uart_receive_char s)) = cs"
    and "rx_bytes (stats (snd (uart_receive_char s))) = rx_bytes (stats s) + 1"
    and "slept_us (snd (uart_receive_char s)) = slept_us s"
  using assms
  by (simp_all add: uart_receive_char_def uart_data_available_eq uart_check_rx_errors_def
        readl_LSR_def readl_IO_def inc_rx_bytes_def inc_fifo_overruns_def)

lemma rx_inner_stop:
  assumes "rx_fifo s = [] \<or> \<not> length kbuf < min 511 count"
  shows "rx_inner count kbuf cnd s = (kbuf, cnd, s\<lparr>lsr_reads := Suc (lsr_reads s)\<rparr>)"
  using assms by (subst rx_inner.simps) (auto simp: uart_data_available_eq)

lemma rx_inner_step:
  assumes "rx_fifo s = c # cs" "length kbuf < min 511 count"
  shows "rx_inner count kbuf cnd s =
     (if c \<noteq> CHR 0x00
      then rx_inner count (kbuf @ [c]) 0 (snd (uart_receive_char (s\<lparr>lsr_reads := Suc (lsr_reads s)\<rparr>)))
      else rx_inner count kbuf cnd (snd (uart_receive_char (s\<lparr>lsr_reads := Suc (lsr_reads s)\<rparr>))))"
proof -
  let ?s1 = "s\<lparr>lsr_reads := Suc (lsr_reads s)\<rparr>"
  have f: "rx_fifo ?s1 = c # cs" using assms by simp
  have "fst (uart_receive_char ?s1) = c" by (rule uart_receive_char_Cons [OF f])
  then have r: "uart_receive_char ?s1 = (c, snd (uart_receive_char ?s1))"
    by (metis prod.collapse)
  show ?thesis
    by (subst rx_inner.simps, simp only: uart_data_available_eq prod.case, subst r)
       (use assms in \<open>simp\<close>)
qed

lemma rx_inner_result:
  "rx_fifo s = fifo \<Longrightarrow> room = min 511 count - length kbuf \<Longrightarrow>
   rx_inner count kbuf cnd s = (kbuf', cnd', s') \<Longrightarrow>
     kbuf' = kbuf @ rx_stored room fifo \<and>
     cnd' = (if rx_stored room fifo = [] then cnd else 0) \<and>
     rx_fifo s' = drop (rx_consumed room fifo) fifo \<and>
     rx_bytes (stats s') = rx_bytes (stats s) + of_nat (rx_consumed room fifo) \<and>
     slept_us s' = slept_us s"
proof (induction fifo arbitrary: s kbuf cnd room)
  case Nil
  then show ?case by (auto simp: rx_inner_stop rx_stored_def)
next
  case (Cons c cs)
  let ?s1 = "s\<lparr>lsr_reads := Suc (lsr_reads s)\<rparr>"
  let ?s2 = "snd (uart_receive_char ?s1)"
  show ?case
  proof (cases "length kbuf < min 511 count")
    case False
    then have "room = 0" using Cons.prems(2) by arith
    with False Cons.prems show ?thesis by (auto simp: rx_inner_stop rx_stored_def)
  next
    case True
    then have room: "room \<noteq> 0" using Cons.prems(2) by arith
    have f1: "rx_fifo ?s1 = c # cs" using Cons.prems by simp
    note rc = uart_receive_char_Cons [OF f1]
    show ?thesis
    proof (cases "c = CHR 0x00")
      case True
      with Cons.prems \<open>length kbuf < min 511 count\<close>
      have "rx_inner count kbuf cnd ?s2 = (kbuf', cnd', s')"
        by (simp add: rx_inner_step)
      from Cons.IH [OF rc(2) Cons.prems(2) this] True rc room show ?thesis
        by (simp add: rx_stored_def)
    next
      case False
      with Cons.prems \<open>length kbuf < min 511 count\<close>
      have r: "rx_inner count (kbuf @ [c]) 0 ?s2 = (kbuf', cnd', s')"
        by (simp add: rx_inner_step)
      obtain room' where room': "room = Suc room'" using room by (cases room) auto
      have "room' = min 511 count - length (kbuf @ [c])"
        using room' Cons.prems(2) by simp
      from Cons.IH [OF rc(2) this r] False rc room' show ?thesis
        by (simp add: rx_stored_def)
    qed
  qed
qed


lemma rx_consumed_0 [simp]: "rx_consumed 0 fifo = 0"
  by (cases fifo) simp_all

lemma rx_stored_0 [simp]: "rx_stored 0 fifo = []"
  by (simp add: rx_stored_def)

lemma rx_stored_Nil [simp]: "rx_stored room [] = []"
  by (simp add: rx_stored_def)

lemma rx_consumed_le: "rx_consumed room fifo \<le> length fifo"
  by (induction fifo arbitrary: room) simp_all

lemma rx_consumed_left:
  "rx_consumed room fifo < length fifo \<Longrightarrow> length (rx_stored room fifo) = room"
proof (induction fifo arbitrary: room)
  case Nil
  then show ?case by simp
next
  case (Cons c cs)
  show ?case
  proof (cases room)
    case 0
    then show ?thesis by simp
  next
    case (Suc r)
    with Cons.prems Cons.IH [of room] Cons.IH [of r] show ?thesis
      by (auto simp: rx_stored_def split: if_splits)
  qed
qed

lemma rx_outer_full:
  "\<not> length kbuf < min 511 count \<Longrightarrow> rx_outer count kbuf cnd s = (kbuf, cnd, s)"
  by (subst rx_outer.simps) auto

lemma rx_outer_first:
  assumes "length kbuf < min 511 count" "rx_inner count kbuf cnd s = (kbuf1, cnd1, s1)"
  shows "rx_outer count kbuf cnd s =
     (if rx_fifo s1 = [] then
        (if cnd1 + 1 \<ge> 300
         then (kbuf1, cnd1 + 1, usleep_range 1000 1500 (s1\<lparr>lsr_reads := Suc (lsr_reads s1)\<rparr>))
         else rx_outer count kbuf1 (cnd1 + 1)
                (usleep_range 1000 1500 (s1\<lparr>lsr_reads := Suc (lsr_reads s1)\<rparr>)))
      else rx_outer count kbuf1 cnd1 (s1\<lparr>lsr_reads := Suc (lsr_reads s1)\<rparr>))"
  using assms
  by (subst rx_outer.simps) (simp add: uart_data_available_eq Let_def)

lemma rx_outer_idle:
  "rx_fifo s = [] \<Longrightarrow> cnd < 300 \<Longrightarrow> length kbuf < min 511 count \<Longrightarrow>
   rx_outer count kbuf cnd s = (kbuf', cnd', s') \<Longrightarrow>
     kbuf' = kbuf \<and> cnd' = 300 \<and> rx_fifo s' = [] \<and> stats s' = stats s \<and>
     slept_us s' = slept_us s + 1000 * nat (300 - cnd)"
proof (induction "nat (300 - cnd)" arbitrary: cnd s)
  case 0
  then show ?case by simp
next
  case (Suc n)
  let ?s1 = "s\<lparr>lsr_reads := Suc (lsr_reads s)\<rparr>"
  let ?s3 = "usleep_range 1000 1500 (?s1\<lparr>lsr_reads := Suc (lsr_reads ?s1)\<rparr>)"
  have inner: "rx_inner count kbuf cnd s = (kbuf, cnd, ?s1)"
    using Suc.prems(1) by (simp add: rx_inner_stop)
  have f1: "rx_fifo ?s1 = []" using Suc.prems(1) by simp
  note first = rx_outer_first [OF Suc.prems(3) inner]
  show ?case
  proof (cases "cnd + 1 \<ge> 300")
    case True
    with Suc.prems have "cnd = 299" by simp
    with Suc.prems(4) first f1 Suc.prems(1) show ?thesis
      by (auto simp: usleep_range_def)
  next
    case False
    with Suc.prems(4) first f1
    have r: "rx_outer count kbuf (cnd + 1) ?s3 = (kbuf', cnd', s')" by simp
    have n: "n = nat (300 - (cnd + 1))" using Suc.hyps(2) by simp
    have f3: "rx_fifo ?s3 = []" using Suc.prems(1) by (simp add: usleep_range_def)
    from Suc.hyps(1) [OF n f3 _ Suc.prems(3) r] False
    show ?thesis by (simp add: usleep_range_def) 
  qed
qed

lemma rx_outer_result:
  assumes "rx_fifo s = fifo" "room = min 511 count - length kbuf" "0 \<le> cnd" "cnd < 300"
    and "rx_outer count kbuf cnd s = (kbuf', cnd', s')"
  shows "kbuf' = kbuf @ rx_stored room fifo \<and> cnd' \<le> 300 \<and>
     rx_fifo s' = drop (rx_consumed room fifo) fifo \<and>
     rx_bytes (stats s') = rx_bytes (stats s) + of_nat (rx_consumed room fifo) \<and>
     slept_us s' \<le> slept_us s + 300000"
proof (cases "length kbuf < min 511 count")
  case False
  then have "room = 0" using assms(2) by arith
  with False assms show ?thesis by (simp add: rx_outer_full)
next
  case True
  obtain kbuf1 cnd1 s1 where inner: "rx_inner count kbuf cnd s = (kbuf1, cnd1, s1)"
    by (cases "rx_inner count kbuf cnd s") 
  note ir = rx_inner_result [OF assms(1,2) inner]
  note first = rx_outer_first [OF True inner]
  let ?s2 = "s1\<lparr>lsr_reads := Suc (lsr_reads s1)\<rparr>"
  let ?s3 = "usleep_range 1000 1500 ?s2"
  have c1: "0 \<le> cnd1" "cnd1 < 300" using ir assms(3,4) by (auto split: if_splits)
  show ?thesis
  proof (cases "rx_fifo s1 = []")
    case False
    then have "rx_consumed room fifo < length fifo" using ir by simp
    then have "length (rx_stored room fifo) = room" by (rule rx_consumed_left)
    then have "length kbuf1 = length kbuf + room" using ir by simp
    then have full: "\<not> length kbuf1 < min 511 count"
      using assms(2) \<open>length kbuf < min 511 count\<close> by arith
    from first False assms(5) have "rx_outer count kbuf1 cnd1 ?s2 = (kbuf', cnd', s')" by simp
    with rx_outer_full [OF full, of cnd1 ?s2] ir c1 show ?thesis by auto
  next
    case True
    note empty = this
    have d: "drop (rx_consumed room fifo) fifo = []" using ir empty by simp
    show ?thesis
    proof (cases "cnd1 + 1 \<ge> 300")
      case True
      with first empty assms(5) ir c1 d show ?thesis
        by (auto simp: usleep_range_def)
    next
      case False
      with first empty assms(5)
      have r: "rx_outer count kbuf1 (cnd1 + 1) ?s3 = (kbuf', cnd', s')" by simp
      have f3: "rx_fifo ?s3 = []" using empty by (simp add: usleep_range_def)
      show ?thesis
      proof (cases "length kbuf1 < min 511 count")
        case True
        from rx_outer_idle [OF f3 _ True r] False ir c1 d show ?thesis
          by (auto simp: usleep_range_def)
      next
        case False
        with rx_outer_full [OF False, of "cnd1 + 1" ?s3] r ir c1 d \<open>\<not> 300 \<le> cnd1 + 1\<close>
        show ?thesis by (auto simp: usleep_range_def)
      qed
    qed
  qed
qed


lemma rx_wait_first_fields:
  "rx_wait_first t s = (t', s') \<Longrightarrow>
     rx_fifo s' = rx_fifo s \<and> stats s' = stats s \<and>
     (rx_fifo s \<noteq> [] \<longrightarrow> t' = t \<and> slept_us s' = slept_us s) \<and>
     (rx_fifo s = [] \<longrightarrow> t' \<le> 0 \<or> t' < t)"
proof (induction t s arbitrary: t' s' rule: rx_wait_first.induct)
  case (1 timeout s)
  let ?s1 = "s\<lparr>lsr_reads := Suc (lsr_reads s)\<rparr>"
  show ?case
  proof (cases "rx_fifo s = [] \<and> timeout > 0")
    case True
    with "1.prems" have r: "rx_wait_first (timeout - 1) (usleep_range 1000 1500 ?s1) = (t', s')"
      by (subst (asm) rx_wait_first.simps) (simp add: uart_data_available_eq)
    have a: "lsr_value s AND 1 = 0" using True by simp
    from "1.IH" [OF uart_data_available_eq [symmetric] a _ r] True show ?thesis
      by (auto simp: usleep_range_def)
  next
    case False
    with "1.prems" show ?thesis
      by (subst (asm) rx_wait_first.simps) (auto simp: uart_data_available_eq split: if_splits)
  qed
qed

lemma rx_stored_no_nul: "CHR 0x00 \<notin> set (rx_stored room fifo)"
  unfolding rx_stored_def by (auto dest: in_set_takeD)


lemma uart_proc_read_result:
  fixes s :: uart_state and count :: nat
  assumes "rx_fifo s \<noteq> []" "ppos \<le> 0"
  defines "out \<equiv> rx_stored (min 511 count) (rx_fifo s)"
  shows "fst (uart_proc_read ucap count ppos s) =
           (if out = [] then Inr [] else if length out \<le> ucap then Inr out else Inl EFAULT)"
    and "rx_bytes (stats (snd (snd (uart_proc_read ucap count ppos s)))) =
           rx_bytes (stats s) + of_nat (rx_consumed (min 511 count) (rx_fifo s))"
    and "slept_us (snd (snd (uart_proc_read ucap count ppos s))) \<le> slept_us s + 300000"
    and "fst (snd (rx_outer count [] 0 (snd (rx_wait_first 1000 s)))) \<le> 300"
proof -
  obtain t s1 where w: "rx_wait_first 1000 s = (t, s1)" by (cases "rx_wait_first 1000 s")
  from rx_wait_first_fields [OF w] assms(1)
  have s1: "rx_fifo s1 = rx_fifo s" "stats s1 = stats s" "t = 1000" "slept_us s1 = slept_us s"
    by auto
  obtain kbuf cnd s2 where o: "rx_outer count [] 0 s1 = (kbuf, cnd, s2)"
    by (cases "rx_outer count [] 0 s1")
  have "min 511 count = min 511 count - length ([] :: string)" by simp
  from rx_outer_result [OF s1(1) this _ _ o]
  have r: "kbuf = out" "cnd \<le> 300"
      "rx_bytes (stats s2) = rx_bytes (stats s) + of_nat (rx_consumed (min 511 count) (rx_fifo s))"
      "slept_us s2 \<le> slept_us s + 300000"
    using s1 by (auto simp: out_def)
  have u: "uart_proc_read ucap count ppos s =
      (if out = [] then (Inr [], ppos, s2)
       else if length out \<le> ucap then (Inr out, ppos + int (length out), s2)
       else (Inl EFAULT, ppos, inc_rx_errors s2))"
    using assms(2) w o s1(3) r(1)
    by (simp add: uart_proc_read_def copy_to_user_def)
  show "fst (uart_proc_read ucap count ppos s) =
           (if out = [] then Inr [] else if length out \<le> ucap then Inr out else Inl EFAULT)"
    by (simp add: u)
  show "rx_bytes (stats (snd (snd (uart_proc_read ucap count ppos s)))) =
           rx_bytes (stats s) + of_nat (rx_consumed (min 511 count) (rx_fifo s))"
    using r(3) by (simp add: u inc_rx_errors_def)
  show "slept_us (snd (snd (uart_proc_read ucap count ppos s))) \<le> slept_us s + 300000"
    using r(4) by (simp add: u inc_rx_errors_def)
  show "fst (snd (rx_outer count [] 0 (snd (rx_wait_first 1000 s)))) \<le> 300"
    using r(2) by (simp add: w o)
qed

lemma uart_proc_read_empty:
  assumes "rx_fifo s = []"
  shows "fst (uart_proc_read ucap count ppos s) = Inr []"
proof -
  obtain t s1 where w: "rx_wait_first 1000 s = (t, s1)" by (cases "rx_wait_first 1000 s")
  from rx_wait_first_fields [OF w] assms
  have s1: "rx_fifo s1 = []" "t \<le> 0 \<or> t < 1000" by auto
  obtain kbuf cnd s2 where o: "rx_outer count [] 0 s1 = (kbuf, cnd, s2)"
    by (cases "rx_outer count [] 0 s1")
  have "min 511 count = min 511 count - length ([] :: string)" by simp
  from rx_outer_result [OF s1(1) this _ _ o] have "kbuf = []" by simp
  with w o show ?thesis by (simp add: uart_proc_read_def)
qed

lemma uart_proc_read_out_nonzero:
  "fst (uart_proc_read ucap count ppos s) = Inr out \<Longrightarrow> CHR 0x00 \<notin> set out"
proof (cases "rx_fifo s = [] \<or> ppos > 0")
  case True
  then show "fst (uart_proc_read ucap count ppos s) = Inr out \<Longrightarrow> CHR 0x00 \<notin> set out"
    using uart_proc_read_empty [of s ucap count ppos]
    by (auto simp: uart_proc_read_def)
next
  case False
  then have "rx_fifo s \<noteq> []" "ppos \<le> 0" by auto
  from uart_proc_read_result(1) [OF this, of ucap count]
  show "fst (uart_proc_read ucap count ppos s) = Inr out \<Longrightarrow> CHR 0x00 \<notin> set out"
    using rx_stored_no_nul [of "min 511 count" "rx_fifo s"]
    by (auto split: if_splits)
qed





text \<open>
  Claim C10. The bytes \<^verbatim>\<open>uart_proc_read\<close> returns hold no NUL byte. \<^verbatim>\<open>uart_receive_char\<close>
  counts every byte it takes from the FIFO in \<open>rx_bytes\<close>, a NUL byte too, so a call adds
  to \<open>rx_bytes\<close> the number of bytes taken; for the FIFO \<open>A, NUL, B\<close> two bytes are returned
  and \<open>rx_bytes\<close> grows by three.
\<close>

theorem proc_read_no_nul:
  "(\<forall>out. fst (uart_proc_read ucap count ppos s) = Inr out \<longrightarrow> CHR 0x00 \<notin> set out) \<and>
   (\<forall>c cs. rx_fifo s = c # cs \<longrightarrow>
      fst (uart_receive_char s) = c \<and>
      rx_fifo (snd (uart_receive_char s)) = cs \<and>
      rx_bytes (stats (snd (uart_receive_char s))) = rx_bytes (stats s) + 1) \<and>
   (rx_fifo s \<noteq> [] \<and> ppos \<le> 0 \<longrightarrow>
      rx_bytes (stats (snd (snd (uart_proc_read ucap count ppos s)))) =
        rx_bytes (stats s) + of_nat (rx_consumed (min 511 count) (rx_fifo s))) \<and>
   fst (uart_proc_read 3 3 0 (idle_device\<lparr>rx_fifo := [CHR ''A'', CHR 0x00, CHR ''B'']\<rparr>))
     = Inr ''AB'' \<and>
   rx_bytes (stats (snd (snd
       (uart_proc_read 3 3 0 (idle_device\<lparr>rx_fifo := [CHR ''A'', CHR 0x00, CHR ''B'']\<rparr>)))))
     = rx_bytes (stats idle_device) + 3"
proof -
  let ?d1 = "idle_device\<lparr>rx_fifo := [CHR ''A'', CHR 0x00, CHR ''B'']\<rparr>"
  have a: "fst (uart_proc_read 3 3 0 ?d1) = Inr ''AB''"
    using uart_proc_read_result(1) [of ?d1 0 3 3] by (simp add: rx_stored_def)
  have b: "rx_bytes (stats (snd (snd (uart_proc_read 3 3 0 ?d1)))) = rx_bytes (stats idle_device) + 3"
    using uart_proc_read_result(2) [of ?d1 0 3 3] by simp
  show ?thesis
    using a b uart_proc_read_out_nonzero [of ucap count ppos s]
      uart_receive_char_Cons(1,2,3) [of s]
      uart_proc_read_result(2) [of s ppos ucap count]
    by blast
qed

theorem proc_read_no_nul_witness:
  "fst (uart_proc_read 3 3 0 (idle_device\<lparr>rx_fifo := [CHR 0x00, CHR ''Z'']\<rparr>)) = Inr ''Z'' \<and>
   CHR 0x00 \<notin> set ''Z'' \<and>
   fst (uart_receive_char (idle_device\<lparr>rx_fifo := [CHR 0x00, CHR ''Z'']\<rparr>)) = CHR 0x00 \<and>
   rx_bytes (stats (snd (uart_receive_char (idle_device\<lparr>rx_fifo := [CHR 0x00, CHR ''Z'']\<rparr>))))
     = 1 \<and>
   rx_bytes (stats (snd (snd
       (uart_proc_read 3 3 0 (idle_device\<lparr>rx_fifo := [CHR 0x00, CHR ''Z'']\<rparr>))))) = 2"
proof -
  let ?d = "idle_device\<lparr>rx_fifo := [CHR 0x00, CHR ''Z'']\<rparr>"
  have r: "fst (uart_proc_read 3 3 0 ?d) = Inr ''Z''"
    using uart_proc_read_result(1) [of ?d 0 3 3] by (simp add: rx_stored_def)
  have z: "rx_bytes (stats ?d) = 0" by (simp add: idle_device_def stats_zero_def)
  have f: "rx_fifo ?d = CHR 0x00 # ''Z''" "rx_fifo ?d \<noteq> [] \<and> (0::int) \<le> 0" by simp_all
  from proc_read_no_nul [of 3 3 0 ?d] r f z show ?thesis
    by (simp del: One_nat_def)
qed

section \<open>The configuration endpoint\<close>

lemma uart_config_write_command:
  "uart_config_write ubuf count s =
     (case copy_from_user ubuf (min count 127) of
        None \<Rightarrow> (Inl EFAULT, s)
      | Some kbuf \<Rightarrow>
          (case parse_command kbuf of
             None \<Rightarrow> (Inl EINVAL, s)
           | Some (Set_baud n) \<Rightarrow> apply_and_return count (set_baudrate n s)
           | Some (Set_bits d) \<Rightarrow> apply_and_return count (set_data_bits d s)
           | Some Clear_fifo \<Rightarrow> (Inr count, uart_clear_fifos s)
           | Some Reset_stats \<Rightarrow> (Inr count, reset_stats s)))"
  by (simp add: uart_config_write_def parse_command_def supported_baud_def
        split: option.splits)

lemma uart_apply_config_500MHz:
  assumes "system_clock (config s) = 500000000" "supported_baud (baudrate (config s))"
  shows "fst (uart_apply_config s) = Inr ()"
proof -
  have "\<exists>d. calculate_baud_register (config s) (baudrate (config s)) = Inr d"
    using assms by (auto simp: calculate_baud_register_def supported_baud_def)
  then show ?thesis by (auto simp: uart_apply_config_def)
qed

lemma uart_send_char_config: "config (uart_send_char c s) = config s"
proof -
  have plain: "config (uart_send_char c s) = config s" if "c \<noteq> CHR 0x0A" for c s
  proof -
    obtain t s1 where w: "wait_tx_space 10000 s = (t, s1)" by (cases "wait_tx_space 10000 s")
    from wait_tx_space_fields [OF w] that w show ?thesis
      by (simp add: uart_send_char_plain inc_tx_errors_def inc_tx_bytes_def writel_def Let_def)
  qed
  show ?thesis
  proof (cases "c = CHR 0x0A")
    case False
    then show ?thesis by (rule plain)
  next
    case True
    obtain t s1 where w: "wait_tx_space 10000 (uart_send_char (CHR 0x0D) s) = (t, s1)"
      by (cases "wait_tx_space 10000 (uart_send_char (CHR 0x0D) s)")
    from wait_tx_space_fields [OF w] True w plain [of "CHR 0x0D" s] show ?thesis
      by (simp add: uart_send_char_LF inc_tx_errors_def inc_tx_bytes_def writel_def Let_def)
  qed
qed

lemma uart_send_string_config: "config (uart_send_string cs s) = config s"
  by (induction cs arbitrary: s) (simp_all add: Let_def uart_send_char_config)

lemma uart_proc_write_config: "config (snd (uart_proc_write ubuf count s)) = config s"
  by (simp add: uart_proc_write_def copy_from_user_def uart_send_string_config
        inc_tx_errors_def Let_def)

lemma uart_receive_char_config: "config (snd (uart_receive_char s)) = config s"
  by (simp add: uart_receive_char_def uart_data_available_eq uart_check_rx_errors_def
        readl_LSR_def readl_IO_def inc_rx_bytes_def inc_fifo_overruns_def
        split: list.splits)

lemma rx_wait_first_config: "rx_wait_first t s = (t', s') \<Longrightarrow> config s' = config s"
proof (induction t s arbitrary: t' s' rule: rx_wait_first.induct)
  case (1 timeout s)
  let ?s1 = "s\<lparr>lsr_reads := Suc (lsr_reads s)\<rparr>"
  show ?case
  proof (cases "rx_fifo s = [] \<and> timeout > 0")
    case True
    with "1.prems" have r: "rx_wait_first (timeout - 1) (usleep_range 1000 1500 ?s1) = (t', s')"
      by (subst (asm) rx_wait_first.simps) (simp add: uart_data_available_eq)
    have a: "lsr_value s AND 1 = 0" using True by simp
    from "1.IH" [OF uart_data_available_eq [symmetric] a _ r] True show ?thesis
      by (auto simp: usleep_range_def)
  next
    case False
    with "1.prems" show ?thesis
      by (subst (asm) rx_wait_first.simps) (auto simp: uart_data_available_eq split: if_splits)
  qed
qed

lemma rx_inner_config:
  "rx_fifo s = fifo \<Longrightarrow> rx_inner count kbuf cnd s = (kbuf', cnd', s') \<Longrightarrow>
     config s' = config s"
proof (induction fifo arbitrary: s kbuf cnd)
  case Nil
  then show ?case by (auto simp: rx_inner_stop)
next
  case (Cons c cs)
  let ?s1 = "s\<lparr>lsr_reads := Suc (lsr_reads s)\<rparr>"
  let ?s2 = "snd (uart_receive_char ?s1)"
  show ?case
  proof (cases "length kbuf < min 511 count")
    case False
    with Cons.prems show ?thesis by (auto simp: rx_inner_stop)
  next
    case True
    have f1: "rx_fifo ?s1 = c # cs" using Cons.prems by simp
    note rc = uart_receive_char_Cons [OF f1]
    have a: "config ?s2 = config s" by (simp add: uart_receive_char_config)
    have "\<exists>k c'. rx_inner count k c' ?s2 = (kbuf', cnd', s')"
      using Cons.prems True by (auto simp: rx_inner_step split: if_splits)
    then obtain k c' where "rx_inner count k c' ?s2 = (kbuf', cnd', s')" by blast
    from Cons.IH [OF rc(2) this] a show ?thesis by simp
  qed
qed

lemma rx_outer_idle_config:
  "rx_fifo s = [] \<Longrightarrow> cnd < 300 \<Longrightarrow> length kbuf < min 511 count \<Longrightarrow>
   rx_outer count kbuf cnd s = (kbuf', cnd', s') \<Longrightarrow> config s' = config s"
proof (induction "nat (300 - cnd)" arbitrary: cnd s)
  case 0
  then show ?case by simp
next
  case (Suc n)
  let ?s1 = "s\<lparr>lsr_reads := Suc (lsr_reads s)\<rparr>"
  let ?s3 = "usleep_range 1000 1500 (?s1\<lparr>lsr_reads := Suc (lsr_reads ?s1)\<rparr>)"
  have inner: "rx_inner count kbuf cnd s = (kbuf, cnd, ?s1)"
    using Suc.prems(1) by (simp add: rx_inner_stop)
  have f1: "rx_fifo ?s1 = []" using Suc.prems(1) by simp
  note first = rx_outer_first [OF Suc.prems(3) inner]
  show ?case
  proof (cases "cnd + 1 \<ge> 300")
    case True
    with Suc.prems(4) first f1 show ?thesis
      by (auto simp: usleep_range_def)
  next
    case False
    with Suc.prems(4) first f1
    have r: "rx_outer count kbuf (cnd + 1) ?s3 = (kbuf', cnd', s')" by simp
    have n: "n = nat (300 - (cnd + 1))" using Suc.hyps(2) by simp
    have f3: "rx_fifo ?s3 = []" using Suc.prems(1) by (simp add: usleep_range_def)
    from Suc.hyps(1) [OF n f3 _ Suc.prems(3) r] False
    show ?thesis by (simp add: usleep_range_def)
  qed
qed

lemma rx_outer_config:
  assumes "cnd < 300" and "rx_outer count kbuf cnd s = (kbuf', cnd', s')"
  shows "config s' = config s"
proof (cases "length kbuf < min 511 count")
  case False
  with assms show ?thesis by (auto simp: rx_outer_full)
next
  case True
  obtain kbuf1 cnd1 s1 where inner: "rx_inner count kbuf cnd s = (kbuf1, cnd1, s1)"
    by (cases "rx_inner count kbuf cnd s")
  note ir = rx_inner_result [OF refl refl inner]
  note ic = rx_inner_config [OF refl inner]
  note first = rx_outer_first [OF True inner]
  let ?s2 = "s1\<lparr>lsr_reads := Suc (lsr_reads s1)\<rparr>"
  let ?s3 = "usleep_range 1000 1500 ?s2"
  have c1: "cnd1 < 300" using ir assms(1) by (auto split: if_splits)
  have "config s' = config s1"
  proof (cases "rx_fifo s1 = []")
    case False
    then have "rx_consumed (min 511 count - length kbuf) (rx_fifo s) < length (rx_fifo s)"
      using ir by simp
    then have "length (rx_stored (min 511 count - length kbuf) (rx_fifo s))
        = min 511 count - length kbuf"
      by (rule rx_consumed_left)
    then have "length kbuf1 = length kbuf + (min 511 count - length kbuf)" using ir by simp
    then have full: "\<not> length kbuf1 < min 511 count" using True by arith
    from first False assms(2) have "rx_outer count kbuf1 cnd1 ?s2 = (kbuf', cnd', s')" by simp
    with rx_outer_full [OF full, of cnd1 ?s2] show ?thesis by auto
  next
    case True
    note empty = this
    show ?thesis
    proof (cases "cnd1 + 1 \<ge> 300")
      case True
      with first empty assms(2) show ?thesis by (auto simp: usleep_range_def)
    next
      case False
      with first empty assms(2)
      have r: "rx_outer count kbuf1 (cnd1 + 1) ?s3 = (kbuf', cnd', s')" by simp
      have f3: "rx_fifo ?s3 = []" using empty by (simp add: usleep_range_def)
      show ?thesis
      proof (cases "length kbuf1 < min 511 count")
        case True
        from rx_outer_idle_config [OF f3 _ True r] False show ?thesis
          by (auto simp: usleep_range_def)
      next
        case False
        with rx_outer_full [OF False, of "cnd1 + 1" ?s3] r show ?thesis
          by (auto simp: usleep_range_def)
      qed
    qed
  qed
  with ic show ?thesis by simp
qed

lemma uart_proc_read_config: "config (snd (snd (uart_proc_read ucap count ppos s))) = config s"
proof -
  obtain t s1 where w: "rx_wait_first 1000 s = (t, s1)" by (cases "rx_wait_first 1000 s")
  note c1 = rx_wait_first_config [OF w]
  obtain kbuf cnd s2 where o: "rx_outer count [] 0 s1 = (kbuf, cnd, s2)"
    by (cases "rx_outer count [] 0 s1")
  have c2: "config s2 = config s1" using rx_outer_config [OF _ o] by simp
  show ?thesis
    using w o c1 c2
    by (auto simp: uart_proc_read_def copy_to_user_def inc_rx_errors_def split: if_splits)
qed


lemma uart_apply_config_config: "config (snd (uart_apply_config s)) = config s"
  by (simp add: uart_apply_config_def uart_clear_fifos_def writel_def usleep_range_def Let_def
        split: sum.splits)

lemma uart_apply_config_valid:
  "config_valid (config s) \<Longrightarrow> fst (uart_apply_config s) = Inr ()"
  by (simp add: config_valid_def uart_apply_config_500MHz)

lemma apply_and_return_valid:
  assumes "config_valid (config s)"
  shows "fst (apply_and_return count s) = Inr count"
    and "config (snd (apply_and_return count s)) = config s"
proof -
  obtain r s1 where a: "uart_apply_config s = (r, s1)" by (cases "uart_apply_config s")
  with uart_apply_config_valid [OF assms] have r: "r = Inr ()" by simp
  from a uart_apply_config_config [of s] have c: "config s1 = config s" by simp
  show "fst (apply_and_return count s) = Inr count" using a r by (simp add: apply_and_return_def)
  show "config (snd (apply_and_return count s)) = config s"
    using a r c by (simp add: apply_and_return_def)
qed

lemma config_valid_set:
  "config_valid (config s) \<Longrightarrow> supported_baud b \<Longrightarrow> config_valid (config (set_baudrate b s))"
  "config_valid (config s) \<Longrightarrow> config_valid (config (set_data_bits d s))"
  by (simp_all add: config_valid_def set_baudrate_def set_data_bits_def)

lemma parse_command_Set_baud: "parse_command kbuf = Some (Set_baud b) \<Longrightarrow> supported_baud b"
  by (auto simp: parse_command_def split: option.splits if_splits)

lemma uart_config_write_valid:
  assumes "config_valid (config s)"
  shows "config_valid (config (snd (uart_config_write ubuf count s)))"
proof (cases "copy_from_user ubuf (min count 127)")
  case None
  with assms show ?thesis by (simp add: uart_config_write_command)
next
  case (Some kbuf)
  show ?thesis
  proof (cases "parse_command kbuf")
    case None
    with Some assms show ?thesis by (simp add: uart_config_write_command)
  next
    case (Some cmd)
    note p = this
    show ?thesis
    proof (cases cmd)
      case (Set_baud b)
      with p have "supported_baud b" by (simp add: parse_command_Set_baud)
      then have v: "config_valid (config (set_baudrate b s))"
        using assms by (simp add: config_valid_set)
      from apply_and_return_valid(2) [OF v, of count] v p Set_baud \<open>copy_from_user ubuf (min count 127) = Some kbuf\<close>
      show ?thesis by (simp add: uart_config_write_command)
    next
      case (Set_bits d)
      have v: "config_valid (config (set_data_bits d s))"
        using assms by (simp add: config_valid_set)
      from apply_and_return_valid(2) [OF v, of count] v p Set_bits \<open>copy_from_user ubuf (min count 127) = Some kbuf\<close>
      show ?thesis by (simp add: uart_config_write_command)
    next
      case Clear_fifo
      with p \<open>copy_from_user ubuf (min count 127) = Some kbuf\<close> assms show ?thesis
        by (simp add: uart_config_write_command uart_clear_fifos_def writel_def
              usleep_range_def Let_def)
    next
      case Reset_stats
      with p \<open>copy_from_user ubuf (min count 127) = Some kbuf\<close> assms show ?thesis
        by (simp add: uart_config_write_command reset_stats_def)
    qed
  qed
qed

lemma uart_config_write_error:
  assumes "config_valid (config s)" "fst (uart_config_write ubuf count s) = Inl e"
  shows "snd (uart_config_write ubuf count s) = s"
proof (cases "copy_from_user ubuf (min count 127)")
  case None
  then show ?thesis by (simp add: uart_config_write_command)
next
  case (Some kbuf)
  note c = this
  show ?thesis
  proof (cases "parse_command kbuf")
    case None
    with c show ?thesis by (simp add: uart_config_write_command)
  next
    case (Some cmd)
    note p = this
    show ?thesis
    proof (cases cmd)
      case (Set_baud b)
      with p have "supported_baud b" by (simp add: parse_command_Set_baud)
      then have v: "config_valid (config (set_baudrate b s))"
        using assms(1) by (simp add: config_valid_set)
      from apply_and_return_valid(1) [OF v, of count] c p Set_baud assms(2)
      show ?thesis by (simp add: uart_config_write_command)
    next
      case (Set_bits d)
      have v: "config_valid (config (set_data_bits d s))"
        using assms(1) by (simp add: config_valid_set)
      from apply_and_return_valid(1) [OF v, of count] c p Set_bits assms(2)
      show ?thesis by (simp add: uart_config_write_command)
    next
      case Clear_fifo
      with c p assms(2) show ?thesis by (simp add: uart_config_write_command)
    next
      case Reset_stats
      with c p assms(2) show ?thesis by (simp add: uart_config_write_command)
    qed
  qed
qed

lemma run_config_valid: "config_valid (config s) \<Longrightarrow> config_valid (config (run op s))"
proof (cases op)
  case (Write_data ubuf count)
  assume "config_valid (config s)"
  with Write_data show ?thesis by (simp add: uart_proc_write_config)
next
  case (Read_data ucap count ppos)
  assume "config_valid (config s)"
  with Read_data show ?thesis by (simp add: uart_proc_read_config)
next
  case (Config_write ubuf count)
  assume "config_valid (config s)"
  with Config_write show ?thesis by (simp add: uart_config_write_valid)
next
  case (Config_read ucap count ppos)
  assume "config_valid (config s)"
  with Config_read show ?thesis by simp
next
  case (Status_read ucap count ppos)
  assume "config_valid (config s)"
  with Status_read show ?thesis by (simp add: uart_status_read_def readl_LSR_def)
next
  case (Stats_read ucap count ppos)
  assume "config_valid (config s)"
  with Stats_read show ?thesis by simp
qed

lemma reachable_config_valid: "reachable s \<Longrightarrow> config_valid (config s)"
proof (induction rule: reachable.induct)
  case (loaded s)
  then show ?case by (simp add: config_valid_def config_init_def supported_baud_def)
next
  case (called s op)
  then show ?case by (simp add: run_config_valid)
qed

text \<open>
  Claim C1. In every state the driver can reach, the clock is 500,000,000 and the stored
  rate is one of the five, so applying the configuration does not fail, nor does it after
  a command has stored a supported rate or a data-bits code. Every call of
  \<^verbatim>\<open>uart_config_write\<close> that returns an error leaves the whole state as it was, and so the
  configuration endpoint reads the same before and after.
\<close>

theorem config_write_error_leaves_state:
  assumes "reachable s"
  shows "system_clock (config s) = 500000000 \<and> supported_baud (baudrate (config s)) \<and>
         fst (uart_apply_config s) = Inr () \<and>
         (supported_baud b \<longrightarrow> fst (uart_apply_config (set_baudrate b s)) = Inr ()) \<and>
         fst (uart_apply_config (set_data_bits d s)) = Inr () \<and>
         (fst (uart_config_write ubuf count s) = Inl e \<longrightarrow>
            snd (uart_config_write ubuf count s) = s \<and>
            uart_config_read ucap n ppos (snd (uart_config_write ubuf count s))
              = uart_config_read ucap n ppos s)"
proof -
  note v = reachable_config_valid [OF assms]
  have a: "system_clock (config s) = 500000000 \<and> supported_baud (baudrate (config s))"
    using v by (simp add: config_valid_def)
  have b: "fst (uart_apply_config s) = Inr ()" using v by (rule uart_apply_config_valid)
  have c: "fst (uart_apply_config (set_baudrate b s)) = Inr ()" if "supported_baud b"
    using config_valid_set(1) [OF v that] by (rule uart_apply_config_valid)
  have d: "fst (uart_apply_config (set_data_bits d s)) = Inr ()"
    using config_valid_set(2) [OF v] by (rule uart_apply_config_valid)
  have e: "snd (uart_config_write ubuf count s) = s"
    if "fst (uart_config_write ubuf count s) = Inl e"
    using v that by (rule uart_config_write_error)
  from a b c d e show ?thesis by simp
qed

theorem config_write_error_leaves_state_witness:
  "reachable idle_device \<and> supported_baud 115200 \<and>
   fst (uart_apply_config (set_baudrate 115200 idle_device)) = Inr () \<and>
   fst (uart_config_write ''baud=57601'' 10 idle_device) = Inl EINVAL \<and>
   snd (uart_config_write ''baud=57601'' 10 idle_device) = idle_device \<and>
   reachable (run (Config_write ''bits=7'' 6) idle_device) \<and>
   fst (uart_config_write ''bits=9'' 6 (run (Config_write ''bits=7'' 6) idle_device)) = Inl EINVAL \<and>
   snd (uart_config_write ''bits=9'' 6 (run (Config_write ''bits=7'' 6) idle_device))
     = run (Config_write ''bits=7'' 6) idle_device"
proof -
  have r: "reachable idle_device" by (rule reachable.loaded) (simp add: idle_device_def)
  have r2: "reachable (run (Config_write ''bits=7'' 6) idle_device)"
    by (rule reachable.called [OF r])
  have sb: "supported_baud 115200" by (simp add: supported_baud_def)
  have f: "fst (uart_config_write ''baud=57601'' 10 idle_device) = Inl EINVAL"
    by (simp add: uart_config_write_def copy_from_user_def sscanf_baud_def cstr_def
          isspace_def isdigit_def)
  have f2: "fst (uart_config_write ''bits=9'' 6 s) = Inl EINVAL" for s
    by (simp add: uart_config_write_def copy_from_user_def sscanf_baud_def cstr_def
          eval_nat_numeral)
  from config_write_error_leaves_state [OF r, of 115200 0 "''baud=57601''" 10 EINVAL] sb f
    config_write_error_leaves_state [OF r2, of 115200 0 "''bits=9''" 6 EINVAL] f2 r r2
  show ?thesis by simp
qed

lemma digit_char:
  assumes "m < 10"
  shows "isdigit (char_of (48 + m))" and "(of_char (char_of (48 + m)) :: u64) - 48 = of_nat m"
    and "\<not> isspace (char_of (48 + m))" and "char_of (48 + m) \<noteq> CHR 0x00"
proof -
  define c where "c = char_of (48 + m)"
  have v: "(of_char c :: nat) = 48 + m"
    unfolding c_def using assms by simp
  show "isdigit (char_of (48 + m))"
    using v assms by (simp add: isdigit_def c_def)
  have "(of_char c :: u64) = of_nat (of_char c)" by (simp add: of_nat_of_char)
  then have "(of_char c :: u64) - 48 = of_nat m" by (simp add: v)
  then show "(of_char (char_of (48 + m)) :: u64) - 48 = of_nat m" by (simp add: c_def)
  have "\<not> isspace c"
  proof
    assume "isspace c"
    then have "(of_char c :: nat) \<in> {32, 9, 10, 11, 12, 13, 160}"
      by (auto simp: isspace_def)
    with v assms show False by auto
  qed
  then show "\<not> isspace (char_of (48 + m))" by (simp add: c_def)
  have "c \<noteq> CHR 0x00"
  proof
    assume "c = CHR 0x00"
    then have "(of_char c :: nat) = 0" by simp
    with v show False by simp
  qed
  then show "char_of (48 + m) \<noteq> CHR 0x00" by (simp add: c_def)
qed

lemma dec_digits: "dec n \<noteq> [] \<and> (\<forall>c \<in> set (dec n). isdigit c \<and> c \<noteq> CHR 0x00) \<and>
    isdigit (hd (dec n)) \<and> \<not> isspace (hd (dec n))"
proof (induction n rule: dec.induct)
  case (1 n)
  show ?case
  proof (cases "n < 10")
    case True
    then show ?thesis by (subst (1 2 3 4) dec.simps) (simp add: digit_char)
  next
    case False
    have m: "n mod 10 < 10" by simp
    from "1.IH" [OF False] False digit_char [OF m] show ?thesis
      by (subst (1 2 3 4) dec.simps) auto
  qed
qed

lemma parse_digits_append:
  "\<forall>c \<in> set xs. isdigit c \<Longrightarrow> parse_digits acc (xs @ ys) = parse_digits (parse_digits acc xs) ys"
  by (induction xs arbitrary: acc) simp_all

lemma parse_digits_dec:
  "parse_digits acc (dec n) = acc * 10 ^ length (dec n) + of_nat n"
proof (induction n arbitrary: acc rule: dec.induct)
  case (1 n)
  show ?case
  proof (cases "n < 10")
    case True
    then show ?thesis by (subst (1 2) dec.simps) (simp add: digit_char)
  next
    case False
    have m: "n mod 10 < 10" by simp
    have d: "\<forall>c \<in> set (dec (n div 10)). isdigit c" using dec_digits [of "n div 10"] by simp
    have "parse_digits acc (dec n)
        = parse_digits (parse_digits acc (dec (n div 10))) [char_of (48 + n mod 10)]"
      using False by (subst dec.simps) (simp add: parse_digits_append [OF d])
    also have "\<dots> = parse_digits acc (dec (n div 10)) * 10 + of_nat (n mod 10)"
      using digit_char [OF m] by simp
    also have "\<dots> = (acc * 10 ^ length (dec (n div 10)) + of_nat (n div 10)) * 10 + of_nat (n mod 10)"
      by (simp add: "1.IH" [OF False])
    also have "\<dots> = acc * 10 ^ Suc (length (dec (n div 10)))
        + (of_nat (n div 10) * 10 + of_nat (n mod 10))"
      by (simp add: algebra_simps)
    also have "(of_nat (n div 10) :: u64) * 10 + of_nat (n mod 10) = of_nat n"
    proof -
      have "(of_nat (n div 10 * 10 + n mod 10) :: u64) = of_nat n"
        by (simp only: div_mult_mod_eq)
      then show ?thesis by (simp only: of_nat_add of_nat_mult of_nat_numeral)
    qed
    also have "Suc (length (dec (n div 10))) = length (dec n)"
      using False by (subst (2) dec.simps) simp
    finally show ?thesis .
  qed
qed

lemma sscanf_baud_dec:
  assumes "rest = [] \<or> \<not> isdigit (hd rest)"
  shows "sscanf_baud (''baud='' @ dec n @ rest) = Some (of_nat n)"
proof -
  note dd = dec_digits [of n]
  obtain d ds where dec: "dec n = d # ds" using dd by (cases "dec n") auto
  have nz: "\<forall>c \<in> set (dec n). c \<noteq> CHR 0x00" using dd by blast
  have c: "cstr (''baud='' @ dec n @ rest) = ''baud='' @ dec n @ cstr rest"
    using nz by (simp add: cstr_def takeWhile_append2)
  have sp: "dropWhile isspace (dec n @ cstr rest) = dec n @ cstr rest"
    using dd dec by simp
  have dg: "\<forall>c \<in> set (dec n). isdigit c" using dd by blast
  have tail: "parse_digits acc (cstr rest) = acc" for acc
  proof (cases "cstr rest")
    case Nil
    then show ?thesis by simp
  next
    case (Cons x xs)
    then have "rest \<noteq> []" "hd rest = x"
      by (cases rest; auto simp: cstr_def split: if_splits)+
    with assms Cons show ?thesis by simp
  qed
  have p: "parse_digits 0 (dec n @ cstr rest) = of_nat n"
    by (simp add: parse_digits_append [OF dg] tail parse_digits_dec)
  have u: "(ucast (of_nat n :: u64) :: u32) = of_nat n"
    by (simp add: unsigned_of_nat word_of_nat_eq_iff)
  have "sscanf_baud (''baud='' @ dec n @ rest)
      = (case dec n @ cstr rest of [] \<Rightarrow> None
         | d # ds \<Rightarrow> if isdigit d then Some (ucast (parse_digits 0 (d # ds))) else None)"
    unfolding sscanf_baud_def c Let_def using sp by simp
  also have "\<dots> = Some (ucast (parse_digits 0 (dec n @ cstr rest)))"
    using dd dec by simp
  finally show ?thesis using p u by simp
qed

lemma of_nat_supported:
  assumes "N < 2 ^ 32" "N \<notin> {9600, 19200, 38400, 57600, 115200}"
  shows "\<not> supported_baud (of_nat N)"
proof -
  have u: "unat (of_nat N :: u32) = N" using assms(1) by (simp add: unat_of_nat)
  show ?thesis
  proof
    assume "supported_baud (of_nat N)"
    then have "unat (of_nat N :: u32) \<in> {9600, 19200, 38400, 57600, 115200}"
      unfolding supported_baud_def by auto
    with u assms(2) show False by simp
  qed
qed

lemma uart_config_write_unsupported:
  assumes "copy_from_user ubuf (min count 127) = Some kbuf" "sscanf_baud kbuf = Some n"
    "\<not> supported_baud n"
  shows "uart_config_write ubuf count s = (Inl EINVAL, s)"
  using assms by (simp add: uart_config_write_command parse_command_def)

text \<open>
  Claim C8, as the code has it. A \<^verbatim>\<open>baud=\<close> command whose number, as stored in the 32-bit
  \<^verbatim>\<open>new_baud\<close>, is not one of the five supported rates returns \<^verbatim>\<open>-EINVAL\<close> and leaves the
  whole state, the configuration and the register writes with it, as it was. This holds
  for every command text \<open>baud=N\<close> of at most 127 bytes with \<open>N\<close> below \<open>2 ^ 32\<close> in
  decimal, followed by nothing or by something that is not a digit, and for
  \<open>baud=57601\<close>.
\<close>

theorem unsupported_baud_rejected:
  "(copy_from_user ubuf (min count 127) = Some kbuf \<and> sscanf_baud kbuf = Some n \<and>
    \<not> supported_baud n
    \<longrightarrow> uart_config_write ubuf count s = (Inl EINVAL, s)) \<and>
   (N < 2 ^ 32 \<and> N \<notin> {9600, 19200, 38400, 57600, 115200} \<and>
    (rest = [] \<or> \<not> isdigit (hd rest)) \<and> length (''baud='' @ dec N @ rest) \<le> 127
    \<longrightarrow> uart_config_write (''baud='' @ dec N @ rest) (length (''baud='' @ dec N @ rest)) s
          = (Inl EINVAL, s)) \<and>
   uart_config_write ''baud=57601'' 10 s = (Inl EINVAL, s)"
proof (intro conjI impI)
  assume "copy_from_user ubuf (min count 127) = Some kbuf \<and> sscanf_baud kbuf = Some n \<and>
    \<not> supported_baud n"
  then show "uart_config_write ubuf count s = (Inl EINVAL, s)"
    by (simp add: uart_config_write_unsupported)
next
  let ?cmd = "''baud='' @ dec N @ rest"
  assume a: "N < 2 ^ 32 \<and> N \<notin> {9600, 19200, 38400, 57600, 115200} \<and>
    (rest = [] \<or> \<not> isdigit (hd rest)) \<and> length ?cmd \<le> 127"
  then have c: "copy_from_user ?cmd (min (length ?cmd) 127) = Some ?cmd"
    by (simp add: copy_from_user_def)
  from a have p: "sscanf_baud ?cmd = Some (of_nat N)"
    using sscanf_baud_dec [of rest N] by blast
  from a have n: "\<not> supported_baud (of_nat N)" by (simp add: of_nat_supported)
  show "uart_config_write ?cmd (length ?cmd) s = (Inl EINVAL, s)"
    by (rule uart_config_write_unsupported [OF c p n])
next
  have c: "copy_from_user ''baud=57601'' (min 10 127) = Some ''baud=57601''"
    by (simp add: copy_from_user_def)
  have p: "sscanf_baud ''baud=57601'' = Some 57601"
    by (simp add: sscanf_baud_def cstr_def isspace_def isdigit_def)
  have n: "\<not> supported_baud 57601" by (simp add: supported_baud_def)
  show "uart_config_write ''baud=57601'' 10 s = (Inl EINVAL, s)"
    by (rule uart_config_write_unsupported [OF c p n])
qed

theorem unsupported_baud_rejected_witness:
  "copy_from_user ''baud=300'' (min 8 127) = Some ''baud=300'' \<and>
   sscanf_baud ''baud=300'' = Some 300 \<and> \<not> supported_baud 300 \<and>
   (300::nat) < 2 ^ 32 \<and> (300::nat) \<notin> {9600, 19200, 38400, 57600, 115200} \<and>
   \<not> isdigit (hd [CHR 0x0A]) \<and> length (''baud='' @ dec 300 @ [CHR 0x0A]) \<le> 127 \<and>
   uart_config_write ''baud=300'' 8 idle_device = (Inl EINVAL, idle_device) \<and>
   uart_config_write (''baud=300'' @ [CHR 0x0A]) 9 idle_device = (Inl EINVAL, idle_device)"
proof -
  have d: "dec 300 = ''300''" by (simp add: dec.simps char_of_def bit_Suc_0_iff)
  have c: "copy_from_user ''baud=300'' (min 8 127) = Some ''baud=300''"
    by (simp add: copy_from_user_def)
  have p: "sscanf_baud ''baud=300'' = Some 300"
    by (simp add: sscanf_baud_def cstr_def isspace_def isdigit_def)
  have n: "\<not> supported_baud 300" by (simp add: supported_baud_def)
  have h: "\<not> isdigit (hd [CHR 0x0A])" by (simp add: isdigit_def)
  have a: "uart_config_write ''baud=300'' 8 idle_device = (Inl EINVAL, idle_device)"
    using unsupported_baud_rejected [of "''baud=300''" 8 "''baud=300''" 300 idle_device] c p n
    by blast
  have pre: "(300::nat) < 2 ^ 32 \<and> (300::nat) \<notin> {9600, 19200, 38400, 57600, 115200} \<and>
      ([CHR 0x0A] = [] \<or> \<not> isdigit (hd [CHR 0x0A])) \<and>
      length (''baud='' @ dec 300 @ [CHR 0x0A]) \<le> 127"
    using h d by simp
  from unsupported_baud_rejected [of _ _ _ _ idle_device 300 "[CHR 0x0A]"] pre
  have "uart_config_write (''baud='' @ dec 300 @ [CHR 0x0A])
      (length (''baud='' @ dec 300 @ [CHR 0x0A])) idle_device = (Inl EINVAL, idle_device)"
    by blast
  moreover have "length (''baud='' @ dec 300 @ [CHR 0x0A]) = 9" by (simp add: d)
  ultimately have b: "uart_config_write (''baud=300'' @ [CHR 0x0A]) 9 idle_device
      = (Inl EINVAL, idle_device)"
    by (simp only: d append.simps)
  from a b c p n h d show ?thesis by simp
qed

lemma idle_apply_writes:
  "config s = config_init \<Longrightarrow> writes s = [] \<Longrightarrow>
   uart_apply_config s = (r, s') \<Longrightarrow>
     r = Inr () \<and> writes s' = [(MU_CNTL, 0), (MU_IIR, 2), (MU_IIR, 4), (MU_LCR, 3),
            (MU_BAUD, 6509), (MU_CNTL, 3)]"
  by (auto simp: uart_apply_config_def calculate_baud_register_def config_init_def
        uart_clear_fifos_def writel_def usleep_range_def Let_def)

text \<open>
  Claim C8 as stated fails for a number of \<open>2 ^ 32\<close> or more, of which the low 32 bits
  are stored, and for a command of more than 127 bytes, of which 127 are read: both
  commands below are taken for 9600 baud and the registers are written.
\<close>

theorem wrapped_or_cut_baud_accepted:
  "(4294976896::nat) \<notin> {9600, 19200, 38400, 57600, 115200} \<and>
   fst (uart_config_write ''baud=4294976896'' 15 idle_device) = Inr 15 \<and>
   writes idle_device = [] \<and>
   writes (snd (uart_config_write ''baud=4294976896'' 15 idle_device))
     = [(MU_CNTL, 0), (MU_IIR, 2), (MU_IIR, 4), (MU_LCR, 3), (MU_BAUD, 6509), (MU_CNTL, 3)] \<and>
   (96001::nat) \<notin> {9600, 19200, 38400, 57600, 115200} \<and>
   length (''baud='' @ replicate 118 (CHR 0x20) @ ''96001'') = 128 \<and>
   fst (uart_config_write (''baud='' @ replicate 118 (CHR 0x20) @ ''96001'') 128 idle_device)
     = Inr 128 \<and>
   writes (snd (uart_config_write (''baud='' @ replicate 118 (CHR 0x20) @ ''96001'') 128
                  idle_device))
     = [(MU_CNTL, 0), (MU_IIR, 2), (MU_IIR, 4), (MU_LCR, 3), (MU_BAUD, 6509), (MU_CNTL, 3)]"
proof -
  have w0: "writes idle_device = []" by (simp add: idle_device_def)
  have s0: "set_baudrate 9600 idle_device = idle_device"
    by (simp add: set_baudrate_def idle_device_def config_init_def)
  obtain r s' where a: "uart_apply_config idle_device = (r, s')"
    by (cases "uart_apply_config idle_device")
  have ci: "config idle_device = config_init" by (simp add: idle_device_def)
  note aw = idle_apply_writes [OF ci w0 a]
  have ar: "apply_and_return count idle_device = (Inr count, s')" for count
    using a aw by (simp add: apply_and_return_def)
  have p1: "sscanf_baud ''baud=4294976896'' = Some 9600"
    by (simp add: sscanf_baud_def cstr_def isspace_def isdigit_def)
  have c1: "uart_config_write ''baud=4294976896'' 15 idle_device = (Inr 15, s')"
    using p1 ar s0 by (simp add: uart_config_write_def copy_from_user_def)
  let ?long = "''baud='' @ replicate 118 (CHR 0x20) @ ''96001''"
  have t: "take 127 ?long = ''baud='' @ replicate 118 (CHR 0x20) @ ''9600''" by simp
  have cs: "cstr (''baud='' @ replicate 118 (CHR 0x20) @ ''9600'')
      = ''baud='' @ replicate 118 (CHR 0x20) @ ''9600''"
    unfolding cstr_def by (rule takeWhile_eq_all_conv [THEN iffD2]) auto
  have dw: "dropWhile isspace (replicate 118 (CHR 0x20) @ ''9600'') = ''9600''"
    by (subst dropWhile_append2) (simp_all add: isspace_def)
  have p2: "sscanf_baud (''baud='' @ replicate 118 (CHR 0x20) @ ''9600'') = Some 9600"
    unfolding sscanf_baud_def cs Let_def using dw by (simp add: isdigit_def)
  have c2: "uart_config_write ?long 128 idle_device = (Inr 128, s')"
    using p2 ar s0 t by (simp add: uart_config_write_def copy_from_user_def)
  from c1 c2 aw w0 show ?thesis by simp
qed

section \<open>The statistics counters\<close>

lemma unat_add_le_u64: "unat (a + b :: u64) \<le> unat a + unat b"
  by (simp add: unat_word_ariths)

lemma counter_grows_refl [simp]: "counter_grows n x x"
  by (simp add: counter_grows_def)

lemma counter_grows_inc [simp]: "counter_grows (Suc 0) x (x + 1)"
  by (simp add: counter_grows_def)

lemma counter_grows_mono: "counter_grows n x y \<Longrightarrow> n \<le> m \<Longrightarrow> counter_grows m x y"
  by (simp add: counter_grows_def)

lemma counter_grows_trans:
  assumes "counter_grows n x y" "counter_grows m y z"
  shows "counter_grows (n + m) x z"
proof -
  have "z - x = (z - y) + (y - x)" by simp
  then have "unat (z - x) \<le> unat (z - y) + unat (y - x)"
    using unat_add_le_u64 [of "z - y" "y - x"] by simp
  with assms show ?thesis by (simp add: counter_grows_def)
qed

lemma counter_grows_le:
  assumes "counter_grows n x y" "unat x + n < 2 ^ 64"
  shows "unat x \<le> unat y"
proof -
  have "unat y = (unat x + unat (y - x)) mod 2 ^ 64"
    using unat_word_ariths(1) [of x "y - x"] by simp
  moreover have "unat x + unat (y - x) < 2 ^ 64"
    using assms by (simp add: counter_grows_def)
  ultimately show ?thesis by simp
qed

lemma stats_grow_refl [simp]: "stats_grow n a a"
  by (simp add: stats_grow_def)

lemma stats_grow_eq: "a = b \<Longrightarrow> stats_grow n a b"
  by simp

lemma stats_grow_mono: "stats_grow n a b \<Longrightarrow> n \<le> m \<Longrightarrow> stats_grow m a b"
  by (auto simp: stats_grow_def intro: counter_grows_mono)

lemma stats_grow_trans: "stats_grow n a b \<Longrightarrow> stats_grow m b c \<Longrightarrow> stats_grow (n + m) a c"
  by (auto simp: stats_grow_def intro: counter_grows_trans)

lemma stats_grow_le: "stats_grow n a b \<Longrightarrow> stats_headroom n a \<Longrightarrow> stats_le a b"
  by (auto simp: stats_grow_def stats_headroom_def stats_le_def intro: counter_grows_le)

lemma stats_headroom_mono: "stats_headroom m a \<Longrightarrow> n \<le> m \<Longrightarrow> stats_headroom n a"
  by (auto simp: stats_headroom_def)

lemma stats_grow_inc:
  "stats_grow 1 (stats s) (stats (inc_tx_bytes s))"
  "stats_grow 1 (stats s) (stats (inc_rx_bytes s))"
  "stats_grow 1 (stats s) (stats (inc_tx_errors s))"
  "stats_grow 1 (stats s) (stats (inc_rx_errors s))"
  "stats_grow 1 (stats s) (stats (inc_fifo_overruns s))"
  by (simp_all add: stats_grow_def inc_tx_bytes_def inc_rx_bytes_def
        inc_tx_errors_def inc_rx_errors_def inc_fifo_overruns_def)

lemma uart_send_char_grow: "stats_grow 2 (stats s) (stats (uart_send_char c s))"
proof -
  have step: "stats_grow 1 (stats s0) (stats (uart_send_char c s))"
    if "s0 = (if c = CHR 0x0A then uart_send_char (CHR 0x0D) s else s)" for c s s0
    using uart_send_char_cases [of c s] that
    by (auto simp: stats_grow_def split: prod.splits)
  show ?thesis
  proof (cases "c = CHR 0x0A")
    case False
    from step [of s c s] False show ?thesis by (auto intro: stats_grow_mono)
  next
    case True
    have a: "stats_grow 1 (stats s) (stats (uart_send_char (CHR 0x0D) s))"
      using step [of s "CHR 0x0D" s] by simp
    have b: "stats_grow 1 (stats (uart_send_char (CHR 0x0D) s)) (stats (uart_send_char c s))"
      using step [of "uart_send_char (CHR 0x0D) s" c s] True by simp
    show ?thesis by (rule stats_grow_mono [OF stats_grow_trans [OF a b]]) simp
  qed
qed

lemma uart_send_string_grow:
  "stats_grow (3 * length cs) (stats s) (stats (uart_send_string cs s))"
proof (induction cs arbitrary: s)
  case Nil
  then show ?case by simp
next
  case (Cons c cs)
  show ?case
  proof (cases "c = CHR 0x00")
    case True
    then show ?thesis by simp
  next
    case False
    let ?s1 = "if c = CHR 0x0A then uart_send_char (CHR 0x0D) s else s"
    have a: "stats_grow 1 (stats s) (stats ?s1)"
    proof (cases "c = CHR 0x0A")
      case True
      have "stats_grow 1 (stats s) (stats (uart_send_char (CHR 0x0D) s))"
        using uart_send_char_cases [of "CHR 0x0D" s]
        by (auto simp: stats_grow_def split: prod.splits)
      with True show ?thesis by simp
    next
      case False
      then show ?thesis by simp
    qed
    have b: "stats_grow 2 (stats ?s1) (stats (uart_send_char c ?s1))"
      by (rule uart_send_char_grow)
    have c: "stats_grow (3 * length cs) (stats (uart_send_char c ?s1))
        (stats (uart_send_string cs (uart_send_char c ?s1)))"
      by (rule Cons.IH)
    have eq: "uart_send_string (c # cs) s = uart_send_string cs (uart_send_char c ?s1)"
      using False by (simp add: Let_def)
    show ?thesis unfolding eq
      by (rule stats_grow_mono [OF stats_grow_trans [OF stats_grow_trans [OF a b] c]]) simp
  qed
qed

lemma uart_proc_write_grow: "stats_grow 1533 (stats s) (stats (snd (uart_proc_write ubuf count s)))"
proof (cases "min count 511 \<le> length ubuf")
  case True
  have "stats_grow (3 * length (take (min count 511) ubuf)) (stats s)
      (stats (uart_send_string (take (min count 511) ubuf) s))"
    by (rule uart_send_string_grow)
  moreover have "3 * length (take (min count 511) ubuf) \<le> 1533" by simp
  ultimately have "stats_grow 1533 (stats s) (stats (uart_send_string (take (min count 511) ubuf) s))"
    by (rule stats_grow_mono)
  with True show ?thesis by (simp add: uart_proc_write_def copy_from_user_def)
next
  case False
  then have "length ubuf < min count 511" by arith
  then have "uart_proc_write ubuf count s = (Inl EFAULT, inc_tx_errors s)"
    by (rule uart_proc_write_fault)
  with stats_grow_inc(3) [of s] show ?thesis by (auto intro: stats_grow_mono)
qed


lemma uart_receive_char_grow: "stats_grow 1 (stats s) (stats (snd (uart_receive_char s)))"
  by (simp add: uart_receive_char_def uart_data_available_eq uart_check_rx_errors_def
        readl_LSR_def readl_IO_def inc_rx_bytes_def inc_fifo_overruns_def stats_grow_def
        split: list.splits)

lemma rx_inner_grow:
  "rx_fifo s = fifo \<Longrightarrow> rx_inner count kbuf cnd s = (kbuf', cnd', s') \<Longrightarrow>
     stats_grow (length fifo) (stats s) (stats s')"
proof (induction fifo arbitrary: s kbuf cnd)
  case Nil
  then show ?case by (auto simp: rx_inner_stop)
next
  case (Cons c cs)
  let ?s1 = "s\<lparr>lsr_reads := Suc (lsr_reads s)\<rparr>"
  let ?s2 = "snd (uart_receive_char ?s1)"
  show ?case
  proof (cases "length kbuf < min 511 count")
    case False
    with Cons.prems show ?thesis by (auto simp: rx_inner_stop)
  next
    case True
    have f1: "rx_fifo ?s1 = c # cs" using Cons.prems by simp
    note rc = uart_receive_char_Cons [OF f1]
    have a: "stats_grow 1 (stats s) (stats ?s2)"
      using uart_receive_char_grow [of ?s1] by simp
    have "\<exists>k c'. rx_inner count k c' ?s2 = (kbuf', cnd', s')"
      using Cons.prems True by (auto simp: rx_inner_step split: if_splits)
    then obtain k c' where "rx_inner count k c' ?s2 = (kbuf', cnd', s')" by blast
    from Cons.IH [OF rc(2) this] have b: "stats_grow (length cs) (stats ?s2) (stats s')" .
    show ?thesis by (rule stats_grow_mono [OF stats_grow_trans [OF a b]]) simp
  qed
qed

lemma rx_outer_stats:
  assumes "cnd < 300" and "rx_outer count kbuf cnd s = (kbuf', cnd', s')"
  shows "stats s' = (if length kbuf < min 511 count
                     then stats (snd (snd (rx_inner count kbuf cnd s))) else stats s)"
proof (cases "length kbuf < min 511 count")
  case False
  with assms show ?thesis by (auto simp: rx_outer_full)
next
  case True
  obtain kbuf1 cnd1 s1 where inner: "rx_inner count kbuf cnd s = (kbuf1, cnd1, s1)"
    by (cases "rx_inner count kbuf cnd s")
  note ir = rx_inner_result [OF refl refl inner]
  note first = rx_outer_first [OF True inner]
  let ?s2 = "s1\<lparr>lsr_reads := Suc (lsr_reads s1)\<rparr>"
  let ?s3 = "usleep_range 1000 1500 ?s2"
  have c1: "cnd1 < 300" using ir assms(1) by (auto split: if_splits)
  have "stats s' = stats s1"
  proof (cases "rx_fifo s1 = []")
    case False
    then have "rx_consumed (min 511 count - length kbuf) (rx_fifo s) < length (rx_fifo s)"
      using ir by simp
    then have "length (rx_stored (min 511 count - length kbuf) (rx_fifo s))
        = min 511 count - length kbuf"
      by (rule rx_consumed_left)
    then have "length kbuf1 = length kbuf + (min 511 count - length kbuf)" using ir by simp
    then have full: "\<not> length kbuf1 < min 511 count" using True by arith
    from first False assms(2) have "rx_outer count kbuf1 cnd1 ?s2 = (kbuf', cnd', s')" by simp
    with rx_outer_full [OF full, of cnd1 ?s2] show ?thesis by auto
  next
    case True
    note empty = this
    show ?thesis
    proof (cases "cnd1 + 1 \<ge> 300")
      case True
      with first empty assms(2) show ?thesis by (auto simp: usleep_range_def)
    next
      case False
      with first empty assms(2)
      have r: "rx_outer count kbuf1 (cnd1 + 1) ?s3 = (kbuf', cnd', s')" by simp
      have f3: "rx_fifo ?s3 = []" using empty by (simp add: usleep_range_def)
      show ?thesis
      proof (cases "length kbuf1 < min 511 count")
        case True
        from rx_outer_idle [OF f3 _ True r] False show ?thesis
          by (auto simp: usleep_range_def)
      next
        case False
        with rx_outer_full [OF False, of "cnd1 + 1" ?s3] r show ?thesis
          by (auto simp: usleep_range_def)
      qed
    qed
  qed
  with True inner show ?thesis by auto
qed

lemma rx_outer_grow:
  assumes "cnd < 300" and "rx_outer count kbuf cnd s = (kbuf', cnd', s')"
  shows "stats_grow (length (rx_fifo s)) (stats s) (stats s')"
proof (cases "length kbuf < min 511 count")
  case False
  with rx_outer_stats [OF assms] show ?thesis by auto
next
  case True
  obtain kbuf1 cnd1 s1 where inner: "rx_inner count kbuf cnd s = (kbuf1, cnd1, s1)"
    by (cases "rx_inner count kbuf cnd s")
  from rx_inner_grow [OF refl inner] rx_outer_stats [OF assms] True inner
  show ?thesis by auto
qed

lemma uart_proc_read_grow:
  "stats_grow (length (rx_fifo s) + 1) (stats s)
     (stats (snd (snd (uart_proc_read ucap count ppos s))))"
proof -
  obtain t s1 where w: "rx_wait_first 1000 s = (t, s1)" by (cases "rx_wait_first 1000 s")
  from rx_wait_first_fields [OF w]
  have s1: "rx_fifo s1 = rx_fifo s" "stats s1 = stats s" by auto
  obtain kbuf cnd s2 where o: "rx_outer count [] 0 s1 = (kbuf, cnd, s2)"
    by (cases "rx_outer count [] 0 s1")
  have g: "stats_grow (length (rx_fifo s)) (stats s) (stats s2)"
    using rx_outer_grow [OF _ o] s1 by simp
  have g1: "stats_grow (length (rx_fifo s) + 1) (stats s) (stats s2)"
    by (rule stats_grow_mono [OF g]) simp
  have g2: "stats_grow (length (rx_fifo s) + 1) (stats s) (stats (inc_rx_errors s2))"
    by (rule stats_grow_trans [OF g stats_grow_inc(4)])
  show ?thesis
    using w o s1 g1 g2
    by (auto simp: uart_proc_read_def copy_to_user_def split: if_splits)
qed

lemma uart_apply_config_stats: "stats (snd (uart_apply_config s)) = stats s"
  by (simp add: uart_apply_config_def uart_clear_fifos_def writel_def usleep_range_def Let_def
        split: sum.splits)

lemma apply_and_return_stats: "stats (snd (apply_and_return count s)) = stats s"
  using uart_apply_config_stats [of s]
  by (auto simp: apply_and_return_def split: prod.splits sum.splits)

lemma uart_config_write_stats:
  "\<not> is_reset_stats (Config_write ubuf count) \<Longrightarrow>
     stats (snd (uart_config_write ubuf count s)) = stats s"
  by (auto simp: uart_config_write_command apply_and_return_stats set_baudrate_def
        set_data_bits_def uart_clear_fifos_def writel_def usleep_range_def Let_def
        split: option.splits command.splits)

lemma uart_config_write_reset:
  "is_reset_stats (Config_write ubuf count) \<Longrightarrow>
     snd (uart_config_write ubuf count s) = reset_stats s"
  by (auto simp: uart_config_write_command split: option.splits)

lemma uart_status_read_stats: "stats (snd (uart_status_read ucap count ppos s)) = stats s"
  by (simp add: uart_status_read_def readl_LSR_def)

lemma run_grow:
  "\<not> is_reset_stats op \<Longrightarrow>
     stats_grow (1533 + length (rx_fifo s)) (stats s) (stats (run op s))"
proof (cases op)
  case (Write_data ubuf count)
  show ?thesis unfolding Write_data run.simps
    by (rule stats_grow_mono [OF uart_proc_write_grow]) simp
next
  case (Read_data ucap count ppos)
  show ?thesis unfolding Read_data run.simps
    by (rule stats_grow_mono [OF uart_proc_read_grow]) simp
next
  case (Config_write ubuf count)
  assume "\<not> is_reset_stats op"
  with Config_write show ?thesis by (simp add: uart_config_write_stats)
next
  case (Config_read ucap count ppos)
  then show ?thesis by simp
next
  case (Status_read ucap count ppos)
  then show ?thesis by (simp add: uart_status_read_stats)
next
  case (Stats_read ucap count ppos)
  then show ?thesis by simp
qed


lemma stats_text_zero:
  "stats_text stats_zero =
     ''UART Statistics'' @ NL @
     ''==============='' @ NL @
     ''TX bytes: 0'' @ NL @
     ''RX bytes: 0'' @ NL @
     ''TX errors: 0'' @ NL @
     ''RX errors: 0'' @ NL @
     ''FIFO overruns: 0'' @ NL @
     NL @ ''To reset: echo '' @ DQ @ ''reset_stats'' @ DQ @ '' > /proc/uart_config'' @ NL"
  by (simp add: stats_text_def stats_zero_def dec.simps char_of_def bit_Suc_0_iff)

lemma uart_stats_read_zero:
  "stats s = stats_zero \<Longrightarrow> fst (uart_stats_read 512 512 0 s) = Inr (stats_text stats_zero)"
  by (simp add: uart_stats_read_def read_reply_def copy_to_user_def stats_text_zero)

lemma parse_reset_stats: "parse_command ''reset_stats'' = Some Reset_stats"
  by (simp add: parse_command_def sscanf_baud_def cstr_def eval_nat_numeral)

text \<open>
  Claim C7, as the code has it. Across a call of any endpoint other than a write of
  \<open>reset_stats\<close>, none of the five counters decreases, provided none of them wraps around:
  each is below \<open>2 ^ 64\<close> by more than 1533 (three attempts for each of 511 bytes) plus the
  number of bytes waiting in the receive FIFO. The \<open>reset_stats\<close> command sets all five to
  zero, and the statistics endpoint then shows five zeros.
\<close>

theorem counters_monotone_until_wrap:
  "(\<not> is_reset_stats op \<and> stats_headroom (1533 + length (rx_fifo s)) (stats s)
    \<longrightarrow> stats_le (stats s) (stats (run op s))) \<and>
   (is_reset_stats op
    \<longrightarrow> stats (run op s) = stats_zero \<and>
        fst (uart_stats_read 512 512 0 (run op s)) = Inr (stats_text stats_zero)) \<and>
   stats_text stats_zero =
     ''UART Statistics'' @ NL @
     ''==============='' @ NL @
     ''TX bytes: 0'' @ NL @
     ''RX bytes: 0'' @ NL @
     ''TX errors: 0'' @ NL @
     ''RX errors: 0'' @ NL @
     ''FIFO overruns: 0'' @ NL @
     NL @ ''To reset: echo '' @ DQ @ ''reset_stats'' @ DQ @ '' > /proc/uart_config'' @ NL"
proof (intro conjI impI)
  assume "\<not> is_reset_stats op \<and> stats_headroom (1533 + length (rx_fifo s)) (stats s)"
  then show "stats_le (stats s) (stats (run op s))"
    using stats_grow_le [OF run_grow] by blast
next
  assume r: "is_reset_stats op"
  then obtain ubuf count where op: "op = Config_write ubuf count" by (cases op) auto
  with r have "run op s = reset_stats s" by (simp add: uart_config_write_reset)
  then show z: "stats (run op s) = stats_zero" by (simp add: reset_stats_def)
  then show "fst (uart_stats_read 512 512 0 (run op s)) = Inr (stats_text stats_zero)"
    by (rule uart_stats_read_zero)
next
  show "stats_text stats_zero =
     ''UART Statistics'' @ NL @
     ''==============='' @ NL @
     ''TX bytes: 0'' @ NL @
     ''RX bytes: 0'' @ NL @
     ''TX errors: 0'' @ NL @
     ''RX errors: 0'' @ NL @
     ''FIFO overruns: 0'' @ NL @
     NL @ ''To reset: echo '' @ DQ @ ''reset_stats'' @ DQ @ '' > /proc/uart_config'' @ NL"
    by (rule stats_text_zero)
qed

theorem counters_monotone_until_wrap_witness:
  "\<not> is_reset_stats (Write_data ''hi'' 2) \<and>
   stats_headroom (1533 + length (rx_fifo idle_device)) (stats idle_device) \<and>
   stats_le (stats idle_device) (stats (run (Write_data ''hi'' 2) idle_device)) \<and>
   is_reset_stats (Config_write ''reset_stats'' 11) \<and>
   tx_bytes (stats (inc_tx_bytes idle_device)) = 1 \<and>
   stats (run (Config_write ''reset_stats'' 11) (inc_tx_bytes idle_device)) = stats_zero"
proof -
  have a: "\<not> is_reset_stats (Write_data ''hi'' 2)" by simp
  have h: "stats_headroom (1533 + length (rx_fifo idle_device)) (stats idle_device)"
    by (simp add: stats_headroom_def idle_device_def stats_zero_def)
  have r: "is_reset_stats (Config_write ''reset_stats'' 11)"
    by (simp add: copy_from_user_def parse_reset_stats)
  have t: "tx_bytes (stats (inc_tx_bytes idle_device)) = 1"
    by (simp add: inc_tx_bytes_def idle_device_def stats_zero_def)
  from counters_monotone_until_wrap [of "Write_data ''hi'' 2" idle_device] a h
  have m: "stats_le (stats idle_device) (stats (run (Write_data ''hi'' 2) idle_device))"
    by blast
  from counters_monotone_until_wrap [of "Config_write ''reset_stats'' 11" "inc_tx_bytes idle_device"] r
  have z: "stats (run (Config_write ''reset_stats'' 11) (inc_tx_bytes idle_device)) = stats_zero"
    by blast
  from a h r t m z show ?thesis by blast
qed

text \<open>
  Claim C7 as stated fails where a counter wraps: with \<open>tx_bytes\<close> at \<open>2 ^ 64 - 1\<close>, sending
  one byte sets it to zero.
\<close>

theorem tx_bytes_wraps_to_zero:
  "\<not> is_reset_stats (Write_data ''A'' 1) \<and>
   tx_bytes (stats full_counter_device) = 0xFFFFFFFFFFFFFFFF \<and>
   tx_bytes (stats (run (Write_data ''A'' 1) full_counter_device)) = 0 \<and>
   \<not> stats_le (stats full_counter_device) (stats (run (Write_data ''A'' 1) full_counter_device))"
proof -
  have r: "tx_always_ready full_counter_device"
    by (simp add: tx_always_ready_def full_counter_device_def idle_device_def)
  have b: "tx_bytes (stats full_counter_device) = 0xFFFFFFFFFFFFFFFF"
    by (simp add: full_counter_device_def)
  have "run (Write_data ''A'' 1) full_counter_device = uart_send_char (CHR ''A'') full_counter_device"
    by (simp add: uart_proc_write_def copy_from_user_def)
  also have "\<dots> = inc_tx_bytes (writel (of_char (CHR ''A'')) MU_IO
      (full_counter_device\<lparr>lsr_reads := Suc (lsr_reads full_counter_device)\<rparr>))"
    by (rule uart_send_char_plain_ready [OF r]) simp
  finally have a: "tx_bytes (stats (run (Write_data ''A'' 1) full_counter_device)) = 0"
    by (simp add: inc_tx_bytes_def writel_def b)
  from a b show ?thesis by (simp add: stats_le_def)
qed

end
